theory Spec2Isabelle
  imports Complex_Main "HOL-Library.Char_ord" "HOL-Library.List_Lexorder"
begin

section \<open>Strings\<close>

text \<open>
  A verification development for \<^verbatim>\<open>app.py\<close>, the merit-list chat service: the
  normalizer, the extractor, the closest-year fallback and the \<^verbatim>\<open>/chat\<close> handler are
  embedded as executable functions and the properties of the specification are stated about
  them.

  Python strings are modelled as lists of characters and taken to be ASCII text:
  \<open>lower\<close> is \<^verbatim>\<open>str.lower\<close>, \<open>is_space\<close> is the white space of \<^verbatim>\<open>str.strip\<close> and of the
  pattern class \<^verbatim>\<open>\s\<close>, \<open>is_word\<close> is the class \<^verbatim>\<open>\w\<close> and \<open>is_digit\<close> the class
  \<^verbatim>\<open>\d\<close>.  \<open>contains s p\<close> is the test \<^verbatim>\<open>p in s\<close> and \<open>join\<close> is \<^verbatim>\<open>str.join\<close>.  A Python
  value that may be \<^verbatim>\<open>None\<close> is an option, and \<open>truthy\<close> (defined with the normalizer) is
  the truth value Python gives it.
\<close>

definition lower_char :: "char \<Rightarrow> char" where
  "lower_char c =
     (let n = (of_char c :: nat) in if 65 \<le> n \<and> n \<le> 90 then char_of (n + 32) else c)"

definition lower :: "string \<Rightarrow> string" where
  "lower s = map lower_char s"

definition is_space :: "char \<Rightarrow> bool" where
  "is_space c = (let n = (of_char c :: nat) in (9 \<le> n \<and> n \<le> 13) \<or> (28 \<le> n \<and> n \<le> 32))"

definition is_digit :: "char \<Rightarrow> bool" where
  "is_digit c = (let n = (of_char c :: nat) in 48 \<le> n \<and> n \<le> 57)"

definition is_alpha :: "char \<Rightarrow> bool" where
  "is_alpha c = (let n = (of_char c :: nat) in (65 \<le> n \<and> n \<le> 90) \<or> (97 \<le> n \<and> n \<le> 122))"

definition is_word :: "char \<Rightarrow> bool" where
  "is_word c = (is_alpha c \<or> is_digit c \<or> c = CHR ''_'')"

definition strip :: "string \<Rightarrow> string" where
  "strip s = rev (dropWhile is_space (rev (dropWhile is_space s)))"

fun starts_with :: "string \<Rightarrow> string \<Rightarrow> bool" where
  "starts_with s [] = True"
| "starts_with [] (p # ps) = False"
| "starts_with (c # cs) (p # ps) = (c = p \<and> starts_with cs ps)"

fun contains :: "string \<Rightarrow> string \<Rightarrow> bool" where
  "contains [] p = (p = [])"
| "contains (c # cs) p = (starts_with (c # cs) p \<or> contains cs p)"

fun join :: "string \<Rightarrow> string list \<Rightarrow> string" where
  "join sep [] = []"
| "join sep [x] = x"
| "join sep (x # y # ys) = x @ sep @ join sep (y # ys)"

section \<open>Similarity\<close>

text \<open>
  \<open>ratio\<close> is \<^verbatim>\<open>difflib.SequenceMatcher(None, a.lower(), b.lower()).ratio()\<close>: twice the
  total size of the matching blocks over the sum of the two lengths, and 1 for two empty
  strings.  \<open>find_longest_match\<close> fills the table of the library row by row
  (\<open>next_row\<close> is the dictionary \<^verbatim>\<open>newj2len\<close>, with the value 0 for an absent key) and keeps
  the first block that is strictly longer than the best so far; \<open>matching_size\<close> recurses
  to the left and to the right of that block as \<^verbatim>\<open>get_matching_blocks\<close> does.  No element
  is treated as junk: the library's heuristic for popular elements only applies when the
  second sequence has 200 elements or more, which no vocabulary entry has.

  The score is an exact rational where the program computes a double.  The division
  \<^verbatim>\<open>2.0 * matches / length\<close> is correctly rounded, so equal quotients give equal doubles, and
  two different quotients, or a quotient and a cutoff with two decimals, differ by at least
  the inverse of 100 times the product of the lengths involved, far more than the rounding
  error for any string that fits in memory: every comparison of the program between two
  scores or between a score and a cutoff has the outcome of the comparison of the rationals.
\<close>

fun next_row :: "char \<Rightarrow> string \<Rightarrow> nat list \<Rightarrow> nat list" where
  "next_row x b prev = map (\<lambda>(y, p). if x = y then Suc p else 0) (zip b (0 # prev))"

fun scan_row :: "nat \<Rightarrow> nat \<Rightarrow> nat list \<Rightarrow> nat \<times> nat \<times> nat \<Rightarrow> nat \<times> nat \<times> nat" where
  "scan_row i j [] best = best"
| "scan_row i j (k # ks) (besti, bestj, bestsize) =
     scan_row i (Suc j) ks
       (if k > bestsize then (Suc i - k, Suc j - k, k) else (besti, bestj, bestsize))"

fun flm_rows :: "nat \<Rightarrow> string \<Rightarrow> string \<Rightarrow> nat list \<Rightarrow> nat \<times> nat \<times> nat \<Rightarrow> nat \<times> nat \<times> nat" where
  "flm_rows i [] b j2len best = best"
| "flm_rows i (x # xs) b j2len best =
     (let newj2len = next_row x b j2len
      in flm_rows (Suc i) xs b newj2len (scan_row i 0 newj2len best))"

definition find_longest_match :: "string \<Rightarrow> string \<Rightarrow> nat \<times> nat \<times> nat" where
  "find_longest_match a b = flm_rows 0 a b (replicate (length b) 0) (0, 0, 0)"

lemma next_row_length: "length prev = length b \<Longrightarrow> length (next_row x b prev) = length b"
  by simp

lemma next_row_bound:
  assumes "length prev = length b"
    and "\<And>m. m < length prev \<Longrightarrow> prev ! m \<le> i \<and> prev ! m \<le> Suc m"
    and "n < length b"
  shows "next_row x b prev ! n \<le> Suc i \<and> next_row x b prev ! n \<le> Suc n"
proof (cases n)
  case 0
  with assms show ?thesis by simp
next
  case (Suc m)
  with assms have "m < length prev" by simp
  with assms(2) have "prev ! m \<le> i \<and> prev ! m \<le> Suc m" by blast
  with Suc assms(1,3) show ?thesis by simp
qed

lemma scan_row_bound:
  assumes "\<And>n. n < length ks \<Longrightarrow> ks ! n \<le> Suc i \<and> ks ! n \<le> Suc (j + n)"
    and "fst best + snd (snd best) \<le> Suc i"
    and "fst (snd best) + snd (snd best) \<le> j + length ks"
  shows "fst (scan_row i j ks best) + snd (snd (scan_row i j ks best)) \<le> Suc i
       \<and> fst (snd (scan_row i j ks best)) + snd (snd (scan_row i j ks best)) \<le> j + length ks"
  using assms
proof (induction ks arbitrary: j best)
  case Nil
  then show ?case by simp
next
  case (Cons k ks)
  obtain besti bestj bestsize where b: "best = (besti, bestj, bestsize)"
    by (cases best) auto
  let ?best' = "if k > bestsize then (Suc i - k, Suc j - k, k) else (besti, bestj, bestsize)"
  have k: "k \<le> Suc i \<and> k \<le> Suc j"
    using Cons.prems(1) [of 0] by simp
  have rest: "\<And>n. n < length ks \<Longrightarrow> ks ! n \<le> Suc i \<and> ks ! n \<le> Suc (Suc j + n)"
    using Cons.prems(1) by (metis Suc_less_eq add_Suc add_Suc_right length_Cons nth_Cons_Suc)
  have p1: "fst ?best' + snd (snd ?best') \<le> Suc i"
    using k Cons.prems(2) b by auto
  have p2: "fst (snd ?best') + snd (snd ?best') \<le> Suc j + length ks"
    using k Cons.prems(3) b by auto
  from Cons.IH [of "Suc j" ?best', OF rest p1 p2] b show ?case by simp
qed

lemma flm_rows_bound:
  assumes "length j2len = length b"
    and "\<And>m. m < length j2len \<Longrightarrow> j2len ! m \<le> i \<and> j2len ! m \<le> Suc m"
    and "fst best + snd (snd best) \<le> i"
    and "fst (snd best) + snd (snd best) \<le> length b"
  shows "fst (flm_rows i a b j2len best) + snd (snd (flm_rows i a b j2len best)) \<le> i + length a
       \<and> fst (snd (flm_rows i a b j2len best)) + snd (snd (flm_rows i a b j2len best)) \<le> length b"
  using assms
proof (induction a arbitrary: i j2len best)
  case Nil
  then show ?case by simp
next
  case (Cons x xs)
  let ?row = "next_row x b j2len"
  have len: "length ?row = length b"
    using Cons.prems(1) by simp
  have row: "\<And>n. n < length ?row \<Longrightarrow> ?row ! n \<le> Suc i \<and> ?row ! n \<le> Suc n"
    using next_row_bound [OF Cons.prems(1) Cons.prems(2)] len by simp
  have row0: "\<And>n. n < length ?row \<Longrightarrow> ?row ! n \<le> Suc i \<and> ?row ! n \<le> Suc (0 + n)"
    using row by simp
  have s: "fst (scan_row i 0 ?row best) + snd (snd (scan_row i 0 ?row best)) \<le> Suc i
       \<and> fst (snd (scan_row i 0 ?row best)) + snd (snd (scan_row i 0 ?row best)) \<le> 0 + length ?row"
    by (rule scan_row_bound [OF row0]) (use Cons.prems(3,4) len in auto)
  have "fst (flm_rows (Suc i) xs b ?row (scan_row i 0 ?row best))
          + snd (snd (flm_rows (Suc i) xs b ?row (scan_row i 0 ?row best))) \<le> Suc i + length xs
      \<and> fst (snd (flm_rows (Suc i) xs b ?row (scan_row i 0 ?row best)))
          + snd (snd (flm_rows (Suc i) xs b ?row (scan_row i 0 ?row best))) \<le> length b"
    by (rule Cons.IH [OF len]) (use row s len in auto)
  then show ?case by (simp add: Let_def)
qed

lemma find_longest_match_bound:
  assumes "find_longest_match a b = (i, j, k)"
  shows "i + k \<le> length a \<and> j + k \<le> length b"
proof -
  have "fst (find_longest_match a b) + snd (snd (find_longest_match a b)) \<le> 0 + length a
      \<and> fst (snd (find_longest_match a b)) + snd (snd (find_longest_match a b)) \<le> length b"
    unfolding find_longest_match_def by (rule flm_rows_bound) auto
  with assms show ?thesis by simp
qed

function matching_size :: "string \<Rightarrow> string \<Rightarrow> nat" where
  "matching_size a b =
     (case find_longest_match a b of
        (i, j, k) \<Rightarrow>
          if k = 0 then 0
          else k
             + (if 0 < i \<and> 0 < j then matching_size (take i a) (take j b) else 0)
             + (if i + k < length a \<and> j + k < length b
                then matching_size (drop (i + k) a) (drop (j + k) b) else 0))"
  by pat_completeness auto
termination
proof (relation "measure (\<lambda>(a, b). length a)", goal_cases)
  case 1
  show ?case by simp
next
  case (2 a b i y j k)
  then have "find_longest_match a b = (i, j, k)" by simp
  from find_longest_match_bound [OF this] 2 show ?case by simp
next
  case (3 a b i y j k)
  then have "0 < k" "i + k < length a" by simp_all
  then have "length a - (i + k) < length a" by arith
  then show ?case by simp
qed

declare matching_size.simps [simp del]

definition ratio :: "string \<Rightarrow> string \<Rightarrow> rat" where
  "ratio a b =
     (let a' = lower a; b' = lower b; len = length a' + length b'
      in if len = 0 then 1 else of_nat (2 * matching_size a' b') / of_nat len)"

fun fuzzy_loop :: "string \<Rightarrow> string list \<Rightarrow> string option \<times> rat \<Rightarrow> string option \<times> rat" where
  "fuzzy_loop candidate [] acc = acc"
| "fuzzy_loop candidate (opt # options) (best, best_r) =
     (let r = ratio candidate opt
      in fuzzy_loop candidate options (if r > best_r then (Some opt, r) else (best, best_r)))"

definition fuzzy_pick :: "string \<Rightarrow> string list \<Rightarrow> rat \<Rightarrow> string option" where
  "fuzzy_pick candidate options cutoff =
     (if candidate = [] \<or> options = [] then None
      else case fuzzy_loop candidate options (None, 0) of
             (best, best_r) \<Rightarrow> if best_r \<ge> cutoff then best else None)"

section \<open>Regular expressions used by the handlers\<close>

text \<open>
  The patterns of the program are sequences of single-character atoms, each taken once,
  optionally (\<^verbatim>\<open>?\<close>), any number of times (\<^verbatim>\<open>*\<close>) or at least once (\<^verbatim>\<open>+\<close>), and word
  boundaries (\<^verbatim>\<open>\b\<close>); an alternation is a list of such sequences tried in order.
  \<open>match_items\<close> returns every way of matching at the current position in the order in
  which a backtracking matcher tries them, each with the text that remains and the last
  character consumed; \<open>re_search\<close> is \<^verbatim>\<open>re.search\<close>: the first alternative that matches at
  the leftmost position, as the matched text.  \<open>key_pattern\<close> reads an alias key as the
  program interpolates it into a pattern, unescaped, so that a dot in a key matches any
  character but a newline; \<open>lits\<close> is the escaped form.  \<open>tokens n\<close> is
  \<^verbatim>\<open>re.findall\<close> for runs of at least \<open>n\<close> letters, digits and apostrophes.
\<close>

datatype atom = Lit char | AnyChar | Space | Digit

datatype item = One atom | Opt atom | Star atom | Plus atom | Bnd

fun atom_ok :: "atom \<Rightarrow> char \<Rightarrow> bool" where
  "atom_ok (Lit l) c = (c = l)"
| "atom_ok AnyChar c = (c \<noteq> CHR 0x0A)"
| "atom_ok Space c = is_space c"
| "atom_ok Digit c = is_digit c"

fun is_word_opt :: "char option \<Rightarrow> bool" where
  "is_word_opt None = False"
| "is_word_opt (Some c) = is_word c"

fun first_char :: "string \<Rightarrow> char option" where
  "first_char [] = None"
| "first_char (c # cs) = Some c"

definition boundary :: "char option \<Rightarrow> string \<Rightarrow> bool" where
  "boundary prev s = (is_word_opt prev \<noteq> is_word_opt (first_char s))"

fun take_many :: "atom \<Rightarrow> char option \<Rightarrow> string \<Rightarrow> (char option \<times> string) list" where
  "take_many a prev [] = [(prev, [])]"
| "take_many a prev (c # cs) =
     (if atom_ok a c then take_many a (Some c) cs @ [(prev, c # cs)] else [(prev, c # cs)])"

fun match_items :: "item list \<Rightarrow> char option \<Rightarrow> string \<Rightarrow> (char option \<times> string) list" where
  "match_items [] prev s = [(prev, s)]"
| "match_items (Bnd # its) prev s = (if boundary prev s then match_items its prev s else [])"
| "match_items (One a # its) prev s =
     (case s of [] \<Rightarrow> [] | c # cs \<Rightarrow> if atom_ok a c then match_items its (Some c) cs else [])"
| "match_items (Opt a # its) prev s =
     (case s of [] \<Rightarrow> [] | c # cs \<Rightarrow> if atom_ok a c then match_items its (Some c) cs else [])
     @ match_items its prev s"
| "match_items (Star a # its) prev s =
     concat (map (\<lambda>(p, r). match_items its p r) (take_many a prev s))"
| "match_items (Plus a # its) prev s =
     (case s of [] \<Rightarrow> []
      | c # cs \<Rightarrow> if atom_ok a c
                 then concat (map (\<lambda>(p, r). match_items its p r) (take_many a (Some c) cs))
                 else [])"

definition match_here :: "item list list \<Rightarrow> char option \<Rightarrow> string \<Rightarrow> string option" where
  "match_here alts prev s =
     (case concat (map (\<lambda>its. match_items its prev s) alts) of
        [] \<Rightarrow> None
      | (p, r) # _ \<Rightarrow> Some (take (length s - length r) s))"

fun re_search_from :: "item list list \<Rightarrow> char option \<Rightarrow> string \<Rightarrow> string option" where
  "re_search_from alts prev [] = match_here alts prev []"
| "re_search_from alts prev (c # cs) =
     (case match_here alts prev (c # cs) of
        Some m \<Rightarrow> Some m
      | None \<Rightarrow> re_search_from alts (Some c) cs)"

definition re_search :: "item list list \<Rightarrow> string \<Rightarrow> string option" where
  "re_search alts s = re_search_from alts None s"

definition lits :: "string \<Rightarrow> item list" where
  "lits w = map (\<lambda>c. One (Lit c)) w"

definition key_pattern :: "string \<Rightarrow> item list" where
  "key_pattern k = map (\<lambda>c. if c = CHR ''.'' then One AnyChar else One (Lit c)) k"

definition word_search :: "item list \<Rightarrow> string \<Rightarrow> bool" where
  "word_search its s = (re_search [[Bnd] @ its @ [Bnd]] s \<noteq> None)"

definition is_token_char :: "char \<Rightarrow> bool" where
  "is_token_char c = (is_alpha c \<or> is_digit c \<or> c = CHR 0x27)"

fun token_runs :: "string \<Rightarrow> string \<Rightarrow> string list" where
  "token_runs cur [] = [cur]"
| "token_runs cur (c # cs) =
     (if is_token_char c then token_runs (cur @ [c]) cs else cur # token_runs [] cs)"

definition tokens :: "nat \<Rightarrow> string \<Rightarrow> string list" where
  "tokens n s = filter (\<lambda>t. n \<le> length t) (token_runs [] s)"

section \<open>Catalog\<close>

text \<open>
  \<open>grab_merit_data\<close> reads the rows of the database, a missing text field as the empty
  string, and trims every text field.  \<open>boot\<close> builds what the module computes when it is
  loaded: the records and the four sorted vocabularies of distinct non-empty values.  Merit
  bounds are carried as rationals; nothing below depends on them.
\<close>

record merit_record =
  University :: string
  Campus :: string
  Department :: string
  Program :: string
  Year :: int
  MinimumMerit :: rat
  MaximumMerit :: rat

record db_row =
  db_University :: "string option"
  db_Campus :: "string option"
  db_Department :: "string option"
  db_Program :: "string option"
  db_Year :: int
  db_MinimumMerit :: rat
  db_MaximumMerit :: rat

fun or_empty :: "string option \<Rightarrow> string" where
  "or_empty None = []"
| "or_empty (Some s) = s"

definition grab_row :: "db_row \<Rightarrow> merit_record" where
  "grab_row r =
     \<lparr>University = strip (or_empty (db_University r)),
      Campus = strip (or_empty (db_Campus r)),
      Department = strip (or_empty (db_Department r)),
      Program = strip (or_empty (db_Program r)),
      Year = db_Year r,
      MinimumMerit = db_MinimumMerit r,
      MaximumMerit = db_MaximumMerit r\<rparr>"

definition grab_merit_data :: "db_row list \<Rightarrow> merit_record list" where
  "grab_merit_data rows = map grab_row rows"

definition vocabulary :: "(merit_record \<Rightarrow> string) \<Rightarrow> merit_record list \<Rightarrow> string list" where
  "vocabulary field recs = sort (remdups (filter (\<lambda>s. s \<noteq> []) (map field recs)))"

record catalog =
  merit_records :: "merit_record list"
  UNIS :: "string list"
  DEPTS :: "string list"
  PROGS :: "string list"
  CAMPS :: "string list"

definition boot :: "db_row list \<Rightarrow> catalog" where
  "boot rows =
     (let recs = grab_merit_data rows
      in \<lparr>merit_records = recs,
          UNIS = vocabulary University recs,
          DEPTS = vocabulary Department recs,
          PROGS = vocabulary Program recs,
          CAMPS = vocabulary Campus recs\<rparr>)"

section \<open>Normalization\<close>

text \<open>
  The alias tables are association lists in the order of the source.  \<open>py_or a b\<close> is the
  Python expression \<^verbatim>\<open>a or b\<close>.  \<open>split_campus\<close> is
  \<^verbatim>\<open>re.split(r"\s*(?:,|and|&)\s*", txt, flags=re.IGNORECASE)\<close>: at each position the
  pattern skips white space and then needs a comma, the letters of ``and'' in any case, or
  an ampersand; the text up to the leftmost match is a part, and the search resumes after
  the white space that follows the separator.  \<open>split_comma\<close> is the split on
  \<^verbatim>\<open>,\s*\<close> of \<open>campus_like\<close>.
\<close>

definition dept_aliases :: "(string \<times> string) list" where
  "dept_aliases =
     [(''cs'', ''Computer Science''), (''c.s'', ''Computer Science''),
      (''comp science'', ''Computer Science''), (''computer science'', ''Computer Science''),
      (''computerscience'', ''Computer Science''),
      (''se'', ''Software Engineering''), (''software engineering'', ''Software Engineering''),
      (''cyber'', ''Cyber Security''), (''cyber security'', ''Cyber Security''),
      (''computing'', ''Computing''),
      (''ee'', ''Electrical''), (''electrical'', ''Electrical''),
      (''electrical engineering'', ''Electrical''),
      (''me'', ''Mechanical''), (''mechanical'', ''Mechanical''),
      (''mechanical engineering'', ''Mechanical''),
      (''physics'', ''Physics''), (''applied physics'', ''Applied Physics''),
      (''math'', ''Mathematics'')]"

definition prog_aliases :: "(string \<times> string) list" where
  "prog_aliases =
     [(''bs'', ''BS''), (''b.s'', ''BS''), (''bsc'', ''BS''), (''b.sc'', ''BS''),
      (''bachelors'', ''BS''), (''bachelor'', ''BS''), (''undergrad'', ''BS''), (''ug'', ''BS''),
      (''ms'', ''MS''), (''m.s'', ''MS''), (''msc'', ''MS''), (''m.sc'', ''MS''),
      (''mphil'', ''MPhil''), (''m.phil'', ''MPhil''), (''postgrad'', ''MS''), (''pg'', ''MS''),
      (''phd'', ''PhD''), (''ph.d'', ''PhD''), (''doctorate'', ''PhD'')]"

definition campus_aliases :: "(string \<times> string) list" where
  "campus_aliases =
     [(''isb'', ''Islamabad''), (''islamabad'', ''Islamabad''),
      (''rwp'', ''Rawalpindi''), (''rawalpindi'', ''Rawalpindi''),
      (''lhr'', ''Lahore''), (''lahore'', ''Lahore''),
      (''khi'', ''Karachi''), (''karachi'', ''Karachi''), (''kt'', ''Karachi''),
      (''pesh'', ''Peshawar''), (''peshawar'', ''Peshawar''),
      (''qta'', ''Quetta''), (''quetta'', ''Quetta''),
      (''abbott'', ''Abbottabad''), (''abbottabad'', ''Abbottabad''),
      (''skt'', ''Sialkot''), (''sialkot'', ''Sialkot''),
      (''mul'', ''Multan''), (''multan'', ''Multan''),
      (''faisalabad'', ''Faisalabad''), (''fsd'', ''Faisalabad''),
      (''suk'', ''Sukkur''), (''sukkur'', ''Sukkur'')]"

fun truthy :: "string option \<Rightarrow> bool" where
  "truthy None = False"
| "truthy (Some s) = (s \<noteq> [])"

definition py_or :: "string option \<Rightarrow> string option \<Rightarrow> string option" where
  "py_or a b = (if truthy a then a else b)"

definition norm_dept :: "catalog \<Rightarrow> string \<Rightarrow> string option" where
  "norm_dept cat txt =
     (if txt = [] then None
      else let t = lower (strip txt)
       in case map_of dept_aliases t of
            Some v \<Rightarrow> Some v
          | None \<Rightarrow>
             (case find (\<lambda>d. lower d = t) (DEPTS cat) of
                Some d \<Rightarrow> Some d
              | None \<Rightarrow> py_or (fuzzy_pick txt (DEPTS cat) (83 / 100)) (Some (strip txt))))"

definition squash :: "string \<Rightarrow> string" where
  "squash s = filter (\<lambda>c. c \<noteq> CHR ''-'' \<and> c \<noteq> CHR ''_'' \<and> c \<noteq> CHR '' '') s"

definition norm_prog :: "catalog \<Rightarrow> string \<Rightarrow> string option" where
  "norm_prog cat txt =
     (if txt = [] then None
      else let t = squash (lower (strip txt))
       in case map_of prog_aliases t of
            Some v \<Rightarrow> Some v
          | None \<Rightarrow> py_or (fuzzy_pick txt (PROGS cat) (90 / 100)) (Some (strip txt)))"

definition norm_uni :: "catalog \<Rightarrow> string \<Rightarrow> string option" where
  "norm_uni cat txt =
     (if txt = [] then None
      else case find (\<lambda>u. lower u = lower (strip txt)) (UNIS cat) of
             Some u \<Rightarrow> Some u
           | None \<Rightarrow> py_or (fuzzy_pick txt (UNIS cat) (78 / 100)) (Some (strip txt)))"

definition sep_len :: "string \<Rightarrow> nat option" where
  "sep_len s =
     (if starts_with s '','' then Some 1
      else if starts_with (lower s) ''and'' then Some 3
      else if starts_with s ''&'' then Some 1
      else None)"

definition campus_sep_match :: "string \<Rightarrow> string option" where
  "campus_sep_match s =
     (let s' = dropWhile is_space s
      in case sep_len s' of
           None \<Rightarrow> None
         | Some k \<Rightarrow> Some (dropWhile is_space (drop k s')))"

lemma sep_len_pos: "sep_len s = Some k \<Longrightarrow> 0 < k \<and> s \<noteq> []"
  by (cases s) (auto simp: sep_len_def lower_def split: if_splits)

lemma campus_sep_match_shorter: "campus_sep_match s = Some rest \<Longrightarrow> length rest < length s"
proof -
  assume a: "campus_sep_match s = Some rest"
  then obtain k where k: "sep_len (dropWhile is_space s) = Some k"
    and rest: "rest = dropWhile is_space (drop k (dropWhile is_space s))"
    by (auto simp: campus_sep_match_def Let_def split: option.splits)
  from sep_len_pos [OF k] have "length (drop k (dropWhile is_space s)) < length (dropWhile is_space s)"
    by simp
  moreover have "length rest \<le> length (drop k (dropWhile is_space s))"
    unfolding rest by (rule length_dropWhile_le)
  moreover have "length (dropWhile is_space s) \<le> length s"
    by (rule length_dropWhile_le)
  ultimately show ?thesis by linarith
qed

function split_campus :: "string \<Rightarrow> string \<Rightarrow> string list" where
  "split_campus cur s =
     (case campus_sep_match s of
        Some rest \<Rightarrow> cur # split_campus [] rest
      | None \<Rightarrow> (case s of [] \<Rightarrow> [cur] | c # cs \<Rightarrow> split_campus (cur @ [c]) cs))"
  by pat_completeness auto
termination
  by (relation "measure (\<lambda>(cur, s). length s)") (auto dest: campus_sep_match_shorter)

declare split_campus.simps [simp del]

definition norm_campus_part :: "catalog \<Rightarrow> string \<Rightarrow> string" where
  "norm_campus_part cat p_s =
     (case map_of campus_aliases (lower p_s) of
        Some v \<Rightarrow> v
      | None \<Rightarrow> or_empty (py_or (fuzzy_pick p_s (CAMPS cat) (80 / 100)) (Some p_s)))"

fun dedupe :: "string list \<Rightarrow> string list \<Rightarrow> string list" where
  "dedupe seen [] = []"
| "dedupe seen (c # cs) =
     (if lower c \<in> set seen then dedupe seen cs else c # dedupe (lower c # seen) cs)"

definition norm_campus :: "catalog \<Rightarrow> string \<Rightarrow> string" where
  "norm_campus cat txt =
     (if txt = [] then []
      else join '', '' (dedupe []
             (map (norm_campus_part cat)
                (filter (\<lambda>p_s. p_s \<noteq> []) (map strip (split_campus [] txt))))))"

function split_comma :: "string \<Rightarrow> string \<Rightarrow> string list" where
  "split_comma cur [] = [cur]"
| "split_comma cur (c # cs) =
     (if c = CHR '','' then cur # split_comma [] (dropWhile is_space cs)
      else split_comma (cur @ [c]) cs)"
  by pat_completeness auto
termination
  by (relation "measure (\<lambda>(cur, s). length s)")
     (auto simp: less_Suc_eq_le length_dropWhile_le)

definition campus_like :: "string \<Rightarrow> string \<Rightarrow> bool" where
  "campus_like c1 c2 =
     (if c2 = [] then True
      else let c1_l = lower c1;
               c2_list = map (\<lambda>x. lower (strip x)) (filter (\<lambda>x. strip x \<noteq> []) (split_comma [] c2))
           in list_ex (\<lambda>part. part = c1_l \<or> contains c1_l part) c2_list)"

definition departments_at_uni :: "catalog \<Rightarrow> string \<Rightarrow> string list" where
  "departments_at_uni cat uni =
     sort (remdups (map Department
       (filter (\<lambda>r. lower (University r) = lower uni) (merit_records cat))))"

definition programs_for :: "catalog \<Rightarrow> string \<Rightarrow> string \<Rightarrow> string list" where
  "programs_for cat uni dept =
     sort (remdups (map Program
       (filter (\<lambda>r. lower (University r) = lower uni \<and> lower (Department r) = lower dept)
          (merit_records cat))))"

definition adjust_dept_for_uni :: "catalog \<Rightarrow> string \<Rightarrow> string \<Rightarrow> string" where
  "adjust_dept_for_uni cat uni dept =
     (if uni = [] \<or> dept = [] then dept
      else let uni_deps = map lower (departments_at_uni cat uni)
       in if lower dept \<in> set [''computer science'', ''software engineering'', ''cyber security'']
             \<and> ''computer science'' \<notin> set uni_deps \<and> ''computing'' \<in> set uni_deps
          then ''Computing'' else dept)"

section \<open>Data helpers\<close>

definition available_years ::
  "catalog \<Rightarrow> string \<Rightarrow> string \<Rightarrow> string \<Rightarrow> string option \<Rightarrow> int list" where
  "available_years cat uni dept prog camp =
     sort (remdups (map Year
       (filter (\<lambda>r. lower (University r) = lower uni
                   \<and> lower (Department r) = lower dept
                   \<and> lower (Program r) = lower prog
                   \<and> (case camp of None \<Rightarrow> True | Some c \<Rightarrow> campus_like (Campus r) c))
          (merit_records cat))))"

fun min_key :: "('a \<Rightarrow> int) \<Rightarrow> 'a \<Rightarrow> 'a list \<Rightarrow> 'a" where
  "min_key key best [] = best"
| "min_key key best (y # ys) = min_key key (if key y < key best then y else best) ys"

definition closest_year ::
  "catalog \<Rightarrow> string \<Rightarrow> string \<Rightarrow> string \<Rightarrow> int \<Rightarrow> string option \<Rightarrow> int option" where
  "closest_year cat uni dept prog yr camp =
     (case available_years cat uni dept prog camp of
        [] \<Rightarrow> None
      | y # ys \<Rightarrow> Some (min_key (\<lambda>y. \<bar>y - yr\<bar>) y ys))"

section \<open>Extraction\<close>

text \<open>
  The current year is a parameter, \<open>now_y\<close>.  Each loop of \<open>cheap_extract\<close> that stops at
  its first hit is a \<open>find\<close>; \<open>if_not_found found hit\<close> is the guard
  \<^verbatim>\<open>if not found:\<close> around the next loop, which leaves \<open>found\<close> as it is when that loop
  has no hit.
\<close>

definition last_year_pattern :: "item list list" where
  "last_year_pattern = [[Bnd] @ lits ''last'' @ [Plus Space] @ lits ''year'' @ [Bnd]]"

definition year_pattern :: "item list list" where
  "year_pattern =
     [[Bnd] @ lits ''20'' @ [One Digit, One Digit, Bnd],
      [Bnd] @ lits ''19'' @ [One Digit, One Digit, Bnd]]"

definition int_of_digits :: "string \<Rightarrow> int" where
  "int_of_digits ds = foldl (\<lambda>n c. 10 * n + (int (of_char c) - 48)) 0 ds"

definition detect_year_from_text :: "int \<Rightarrow> string \<Rightarrow> int" where
  "detect_year_from_text now_y msg =
     (let msg_l = lower msg
      in if re_search last_year_pattern msg_l \<noteq> None then now_y - 1
         else case re_search year_pattern msg_l of
                Some m \<Rightarrow> int_of_digits m
              | None \<Rightarrow> now_y)"

fun first_fuzzy :: "string list \<Rightarrow> string list \<Rightarrow> rat \<Rightarrow> string option" where
  "first_fuzzy [] options cutoff = None"
| "first_fuzzy (token # rest) options cutoff =
     (let fm = fuzzy_pick token options cutoff
      in if truthy fm then fm else first_fuzzy rest options cutoff)"

definition if_not_found :: "string option \<Rightarrow> string option \<Rightarrow> string option" where
  "if_not_found found hit =
     (if truthy found then found else case hit of None \<Rightarrow> found | Some v \<Rightarrow> Some v)"

definition alias_word_hit :: "(string \<times> string) list \<Rightarrow> string \<Rightarrow> string option" where
  "alias_word_hit aliases msg_l =
     map_option snd (find (\<lambda>(k, v). word_search (key_pattern k) msg_l) aliases)"

definition substring_hit :: "string list \<Rightarrow> string \<Rightarrow> string option" where
  "substring_hit vocab msg_l = find (\<lambda>v. contains msg_l (lower v)) vocab"

definition extract_uni :: "catalog \<Rightarrow> string \<Rightarrow> string option" where
  "extract_uni cat msg_l =
     if_not_found (substring_hit (UNIS cat) msg_l)
       (first_fuzzy (tokens 3 msg_l) (UNIS cat) (80 / 100))"

definition extract_dept :: "catalog \<Rightarrow> string \<Rightarrow> string option" where
  "extract_dept cat msg_l =
     if_not_found
       (if_not_found (alias_word_hit dept_aliases msg_l) (substring_hit (DEPTS cat) msg_l))
       (first_fuzzy (tokens 2 msg_l) (DEPTS cat) (83 / 100))"

definition extract_prog :: "catalog \<Rightarrow> string \<Rightarrow> string option" where
  "extract_prog cat msg_l =
     if_not_found
       (if_not_found (alias_word_hit prog_aliases msg_l) (substring_hit (PROGS cat) msg_l))
       (Some ''BS'')"

definition extract_camp :: "catalog \<Rightarrow> string \<Rightarrow> string option" where
  "extract_camp cat msg_l =
     (let camps_detected =
            map snd (filter (\<lambda>(short, full). word_search (lits short) msg_l) campus_aliases)
            @ filter (\<lambda>c. contains msg_l (lower c)) (CAMPS cat)
      in if camps_detected = [] then None else Some (join '', '' (dedupe [] camps_detected)))"

definition cheap_extract ::
  "catalog \<Rightarrow> int \<Rightarrow> string
     \<Rightarrow> string option \<times> string option \<times> string option \<times> string option \<times> int" where
  "cheap_extract cat now_y msg =
     (let msg_l = lower msg
      in (extract_uni cat msg_l, extract_camp cat msg_l, extract_dept cat msg_l,
          extract_prog cat msg_l, detect_year_from_text now_y msg))"

definition policy_pattern :: "item list list" where
  "policy_pattern =
     [[Bnd] @ lits ''vacant seat'' @ [Opt (Lit CHR ''s''), Bnd],
      [Bnd] @ lits ''vacancies'' @ [Bnd],
      [Bnd] @ lits ''merit'' @ [Star Space] @ lits ''list'' @ [Opt (Lit CHR ''s''), Bnd],
      [Bnd] @ lits ''policy'' @ [Bnd],
      [Bnd] @ lits ''how many list'' @ [Opt (Lit CHR ''s''), Bnd]]"

definition is_policy_question :: "string \<Rightarrow> bool" where
  "is_policy_question msg = (re_search policy_pattern (lower msg) \<noteq> None)"

section \<open>Chat endpoint\<close>

text \<open>
  The answer of the language model enters the handler as \<open>info\<close>: \<open>None\<close> when the call
  fails, when its text holds no object, or when the object does not parse; otherwise the
  parsed object.  Each of its four text fields is absent, null, a string, or any other JSON
  value (a number, a boolean, a list, an object): of such a value the handler uses the truth
  value only, which \<open>Other\<close> carries.  The year is absent, a value that \<^verbatim>\<open>int\<close> accepts, or one
  on which \<^verbatim>\<open>int\<close> raises (\<open>YBad\<close>).  A value held by one of the handler's four text variables
  is a \<open>pyval\<close>: \<^verbatim>\<open>None\<close> or a string (\<open>Txt\<close>), or a value that is not a string (\<open>NonStr\<close>, with
  its truth value).

  \<open>llm_extract\<close> is step 2 of the handler: the four text fields are assigned before the year
  is converted, so they survive the exception that a bad year raises.  \<open>merge_fallback\<close> is
  step 3.  \<open>normalize_slots\<close> is step 4 with the adjustment of the department: it lies
  outside the \<^verbatim>\<open>try\<close> block of step 2, and each normalizer is called on its variable when
  the variable is truthy.  On a string the normalizer returns; on any other truthy value
  \<^verbatim>\<open>norm_uni\<close>, \<^verbatim>\<open>norm_dept\<close> and \<^verbatim>\<open>norm_prog\<close> raise \<^verbatim>\<open>AttributeError\<close> (at \<^verbatim>\<open>txt.strip()\<close>) and
  \<^verbatim>\<open>norm_campus\<close> raises \<^verbatim>\<open>TypeError\<close> (at \<^verbatim>\<open>re.split\<close>), which \<open>call_norm\<close> records.  The four
  calls are made in the order university, department, program, campus, and the first
  exception leaves the handler.

  The session store is a map from session keys to the stored context.  The handler either
  raises (\<open>Inl\<close>), which it can do in step 4 only, before any write to the store, or returns
  (\<open>Inr\<close>) its reply, the store it leaves, and the accesses it made under the lock, in order.
  A reply is the prompt or the reply builder that the handler calls, with its arguments:
  the text of the replies, which prints merit values, is not modelled.  The builders compare
  and print their arguments and the loaded records only, and the handler calls them on
  strings and an integer year, so they return.
\<close>

datatype jfield = Absent | Null | Str string | Other bool

datatype pyval = Txt "string option" | NonStr bool

datatype py_error = AttributeError | TypeError

datatype jyear = YAbsent | YInt int | YBad

record hint =
  h_university :: jfield
  h_campus :: jfield
  h_department :: jfield
  h_program :: jfield
  h_year :: jyear
  h_other_keys :: bool

fun get_field :: "jfield \<Rightarrow> pyval" where
  "get_field Absent = Txt None"
| "get_field Null = Txt None"
| "get_field (Str s) = Txt (Some s)"
| "get_field (Other t) = NonStr t"

fun get_default :: "jfield \<Rightarrow> string \<Rightarrow> pyval" where
  "get_default Absent d = Txt (Some d)"
| "get_default Null d = Txt None"
| "get_default (Str s) d = Txt (Some s)"
| "get_default (Other t) d = NonStr t"

fun truthy_val :: "pyval \<Rightarrow> bool" where
  "truthy_val (Txt v) = truthy v"
| "truthy_val (NonStr t) = t"

definition val_or :: "pyval \<Rightarrow> string option \<Rightarrow> pyval" where
  "val_or a b = (if truthy_val a then a else Txt b)"

definition dict_nonempty :: "hint \<Rightarrow> bool" where
  "dict_nonempty h =
     (h_university h \<noteq> Absent \<or> h_campus h \<noteq> Absent \<or> h_department h \<noteq> Absent
      \<or> h_program h \<noteq> Absent \<or> h_year h \<noteq> YAbsent \<or> h_other_keys h)"

type_synonym slots = "pyval \<times> pyval \<times> pyval \<times> pyval \<times> int option"

type_synonym resolved = "string option \<times> string \<times> string option \<times> string option \<times> int option"

definition llm_extract :: "int \<Rightarrow> string \<Rightarrow> hint option \<Rightarrow> slots" where
  "llm_extract now_y user_msg info =
     (case info of
        None \<Rightarrow> (Txt None, Txt None, Txt None, Txt None, None)
      | Some h \<Rightarrow>
          if \<not> dict_nonempty h then (Txt None, Txt None, Txt None, Txt None, None)
          else (get_field (h_university h), get_default (h_campus h) [],
                get_field (h_department h), get_default (h_program h) ''BS'',
                case h_year h of
                  YAbsent \<Rightarrow> Some (detect_year_from_text now_y user_msg)
                | YInt n \<Rightarrow> Some n
                | YBad \<Rightarrow> None))"

fun truthy_int :: "int option \<Rightarrow> bool" where
  "truthy_int None = False"
| "truthy_int (Some n) = (n \<noteq> 0)"

definition merge_fallback :: "catalog \<Rightarrow> int \<Rightarrow> string \<Rightarrow> slots \<Rightarrow> slots" where
  "merge_fallback cat now_y user_msg sl =
     (case sl of
        (uni, camp, dept, prog, yr) \<Rightarrow>
          if \<not> (truthy_val uni \<and> truthy_val dept \<and> truthy_val prog \<and> truthy_int yr)
          then case cheap_extract cat now_y user_msg of
                 (f_uni, f_camp, f_dep, f_prog, f_yr) \<Rightarrow>
                   (val_or uni f_uni, val_or camp f_camp, val_or dept f_dep, val_or prog f_prog,
                    if truthy_int yr then yr else Some f_yr)
          else (uni, camp, dept, prog, yr))"

fun call_norm :: "py_error \<Rightarrow> (string \<Rightarrow> 'a) \<Rightarrow> 'a \<Rightarrow> pyval \<Rightarrow> py_error + 'a" where
  "call_norm err f dflt (Txt v) = Inr (if truthy v then f (or_empty v) else dflt)"
| "call_norm err f dflt (NonStr t) = (if t then Inl err else Inr dflt)"

definition normalize_slots :: "catalog \<Rightarrow> slots \<Rightarrow> py_error + resolved" where
  "normalize_slots cat sl =
     (case sl of
        (uni0, camp0, dept0, prog0, yr) \<Rightarrow>
          case call_norm AttributeError (norm_uni cat) None uni0 of
            Inl e \<Rightarrow> Inl e
          | Inr uni \<Rightarrow>
          case call_norm AttributeError (norm_dept cat) None dept0 of
            Inl e \<Rightarrow> Inl e
          | Inr dept1 \<Rightarrow>
          case call_norm AttributeError (norm_prog cat) None prog0 of
            Inl e \<Rightarrow> Inl e
          | Inr prog \<Rightarrow>
          case call_norm TypeError (norm_campus cat) [] camp0 of
            Inl e \<Rightarrow> Inl e
          | Inr camp \<Rightarrow>
              let dept = (if truthy uni \<and> truthy dept1
                          then Some (adjust_dept_for_uni cat (or_empty uni) (or_empty dept1))
                          else dept1)
              in Inr (uni, camp, dept, prog, yr))"

definition resolve_slots :: "catalog \<Rightarrow> int \<Rightarrow> hint option \<Rightarrow> string \<Rightarrow> py_error + resolved" where
  "resolve_slots cat now_y info user_msg =
     normalize_slots cat (merge_fallback cat now_y user_msg (llm_extract now_y user_msg info))"

definition missing_slots :: "string option \<Rightarrow> string option \<Rightarrow> string option \<Rightarrow> string list" where
  "missing_slots uni dept prog =
     (if \<not> truthy uni then [''university''] else [])
     @ (if \<not> truthy dept then [''department''] else [])
     @ (if \<not> truthy prog then [''program''] else [])"

record session_ctx =
  awaiting :: string
  known_university :: "string option"
  known_department :: "string option"
  known_program :: "string option"
  known_campus :: string
  known_year :: "int option"

datatype store_op = Get string | Put string session_ctx | Pop string

datatype reply =
    PolicyReply
  | AskUniversity "string list"
  | AskDepartmentAt string "string list"
  | AskDepartment "string list"
  | AskProgramFor string string "string list"
  | AskProgram
  | MultiCampusReply "string option" "string option" "string option" string "int option"
  | SingleReply "string option" "string option" "string option" string "int option"

record request =
  message :: string
  session :: "string option"
  session_id :: "string option"
  remote_addr :: "string option"

definition session_key :: "request \<Rightarrow> string" where
  "session_key req =
     (case py_or (py_or (py_or (session req) (session_id req)) (remote_addr req)) (Some ''default'') of
        None \<Rightarrow> ''default''
      | Some s \<Rightarrow> s)"

definition ask_reply :: "catalog \<Rightarrow> string \<Rightarrow> string option \<Rightarrow> string option \<Rightarrow> reply" where
  "ask_reply cat ask_next uni dept =
     (if ask_next = ''university'' then AskUniversity (take 8 (UNIS cat))
      else if ask_next = ''department'' then
        (if truthy uni then AskDepartmentAt (or_empty uni) (take 8 (departments_at_uni cat (or_empty uni)))
         else AskDepartment (take 8 (DEPTS cat)))
      else if truthy uni \<and> truthy dept
        then AskProgramFor (or_empty dept) (or_empty uni) (programs_for cat (or_empty uni) (or_empty dept))
        else AskProgram)"

definition and_or_amp :: "item list list" where
  "and_or_amp = [[Bnd] @ lits ''and'' @ [Bnd], lits ''&'']"

definition is_multi_campus :: "string \<Rightarrow> bool" where
  "is_multi_campus camp =
     (camp \<noteq> [] \<and> (CHR '','' \<in> set camp \<or> re_search and_or_amp (lower camp) \<noteq> None))"

definition plug_awaited ::
  "catalog \<Rightarrow> string \<Rightarrow> string \<Rightarrow> string option \<Rightarrow> string option \<Rightarrow> string option
     \<Rightarrow> string option \<times> string option \<times> string option" where
  "plug_awaited cat awaited user_msg uni dept prog =
     (if awaited = ''university'' \<and> \<not> truthy uni
        then (py_or (norm_uni cat user_msg) uni, dept, prog)
      else if awaited = ''department'' \<and> \<not> truthy dept
        then (uni, py_or (norm_dept cat user_msg) dept, prog)
      else if awaited = ''program'' \<and> \<not> truthy prog
        then (uni, dept, py_or (norm_prog cat user_msg) prog)
      else (uni, dept, prog))"

definition chat ::
  "catalog \<Rightarrow> int \<Rightarrow> hint option \<Rightarrow> request \<Rightarrow> (string \<rightharpoonup> session_ctx)
     \<Rightarrow> py_error + reply \<times> (string \<rightharpoonup> session_ctx) \<times> store_op list" where
  "chat cat now_y info req user_context =
     (let user_msg = message req;
          sid = session_key req;
          ctx = user_context sid
      in if is_policy_question user_msg then Inr (PolicyReply, user_context, [Get sid])
         else case resolve_slots cat now_y info user_msg of
           Inl e \<Rightarrow> Inl e
         | Inr (uni, camp, dept, prog, yr) \<Rightarrow>
             (case missing_slots uni dept prog of
                ask_next # _ \<Rightarrow>
                  let stored = \<lparr>awaiting = ask_next, known_university = uni,
                                known_department = dept, known_program = prog,
                                known_campus = camp, known_year = yr\<rparr>
                  in Inr (ask_reply cat ask_next uni dept, user_context(sid \<mapsto> stored),
                          [Get sid, Put sid stored])
              | [] \<Rightarrow>
                  let awaited = (case ctx of None \<Rightarrow> [] | Some c \<Rightarrow> awaiting c);
                      (uni', dept', prog') =
                         (if awaited \<noteq> [] then plug_awaited cat awaited user_msg uni dept prog
                          else (uni, dept, prog));
                      store' = (if awaited \<noteq> [] then user_context(sid := None) else user_context);
                      ops = (if awaited \<noteq> [] then [Get sid, Pop sid] else [Get sid])
                  in if is_multi_campus camp
                     then Inr (MultiCampusReply uni' dept' prog' camp yr, store', ops)
                     else Inr (SingleReply uni' dept' prog' camp yr, store', ops)))"

section \<open>Predicates used in the statements\<close>

text \<open>
  \<open>prefix_row\<close> and \<open>block_ok\<close> are the invariants of the longest-match table: an entry
  \<open>k\<close> at column \<open>j\<close> of the row for a prefix of length \<open>i\<close> says that the \<open>k\<close> characters
  ending there coincide.  \<open>similarity_step\<close> states the outcome of the similarity step: the
  best-scoring vocabulary entry when one reaches the cutoff, the pass-through value
  otherwise.  \<open>exact_hit\<close> states the outcome for a vocabulary string: the first vocabulary
  entry equal to it up to letter case, which is the string itself when no other entry
  differs from it in case only.  \<open>raising_hint\<close> holds of a hint that carries, in one of its
  four text fields, a truthy value that is not a string.
\<close>

fun raising_value :: "jfield \<Rightarrow> bool" where
  "raising_value (Other t) = t"
| "raising_value Absent = False"
| "raising_value Null = False"
| "raising_value (Str s) = False"

definition raising_hint :: "hint option \<Rightarrow> bool" where
  "raising_hint info =
     (case info of
        None \<Rightarrow> False
      | Some h \<Rightarrow> raising_value (h_university h) \<or> raising_value (h_campus h)
                  \<or> raising_value (h_department h) \<or> raising_value (h_program h))"

definition prefix_row :: "string \<Rightarrow> string \<Rightarrow> nat \<Rightarrow> nat list \<Rightarrow> bool" where
  "prefix_row a b i row =
     (length row = length b
      \<and> (\<forall>j < length b. \<forall>m < row ! j. m < i \<and> m \<le> j \<and> a ! (i - 1 - m) = b ! (j - m)))"

definition block_ok :: "string \<Rightarrow> string \<Rightarrow> nat \<times> nat \<times> nat \<Rightarrow> bool" where
  "block_ok a b best =
     (case best of (bi, bj, bs) \<Rightarrow>
        bi + bs \<le> length a \<and> bj + bs \<le> length b \<and> (\<forall>m < bs. a ! (bi + m) = b ! (bj + m)))"

definition similarity_step :: "string \<Rightarrow> string list \<Rightarrow> rat \<Rightarrow> string \<Rightarrow> string option \<Rightarrow> bool" where
  "similarity_step candidate vocab cutoff passthrough result =
     (if \<exists>v \<in> set vocab. cutoff \<le> ratio candidate v
      then \<exists>b \<in> set vocab. result = Some b \<and> cutoff \<le> ratio candidate b
             \<and> (\<forall>v \<in> set vocab. ratio candidate v \<le> ratio candidate b)
      else result = Some passthrough)"

definition exact_hit :: "string list \<Rightarrow> string \<Rightarrow> string option \<Rightarrow> bool" where
  "exact_hit vocab v result =
     (result = find (\<lambda>u. lower u = lower v) vocab
      \<and> (\<exists>u \<in> set vocab. result = Some u \<and> lower u = lower v)
      \<and> ((\<forall>u \<in> set vocab. lower u = lower v \<longrightarrow> u = v) \<longrightarrow> result = Some v))"

section \<open>Sample data\<close>

definition sample_row :: "string \<Rightarrow> string \<Rightarrow> string \<Rightarrow> string \<Rightarrow> int \<Rightarrow> db_row" where
  "sample_row uni camp dept prog yr =
     \<lparr>db_University = Some uni, db_Campus = Some camp, db_Department = Some dept,
      db_Program = Some prog, db_Year = yr, db_MinimumMerit = 80, db_MaximumMerit = 185 / 2\<rparr>"

definition fast_cs :: "int \<Rightarrow> db_row" where
  "fast_cs yr = sample_row ''FAST'' ''Islamabad'' ''Computer Science'' ''BS'' yr"

definition policy_req :: request where
  "policy_req =
     \<lparr>message = ''merit list policy for BS CS at FAST Islamabad 2023'', session = Some ''s1'',
      session_id = None, remote_addr = None\<rparr>"

definition diploma_cat :: catalog where
  "diploma_cat = boot [sample_row ''FAST'' ''Islamabad'' ''Physics'' ''Diploma'' 2023]"

definition turn :: "string \<Rightarrow> request" where
  "turn msg = \<lparr>message = msg, session = Some ''s1'', session_id = None, remote_addr = None\<rparr>"



definition list_campus_hint :: hint where
  "list_campus_hint =
     \<lparr>h_university = Str ''FAST'', h_campus = Other True, h_department = Str ''CS'',
      h_program = Str ''BS'', h_year = YInt 2023, h_other_keys = False\<rparr>"

definition blank_hint :: hint where
  "blank_hint =
     \<lparr>h_university = Str ''FAST'', h_campus = Null, h_department = Str ''Computer Science'',
      h_program = Str '' '', h_year = YInt 2023, h_other_keys = False\<rparr>"

definition ms_hint :: hint where
  "ms_hint =
     \<lparr>h_university = Null, h_campus = Absent, h_department = Str ''cs'',
      h_program = Str ''ms '', h_year = YAbsent, h_other_keys = False\<rparr>"

definition chem_cat_rows :: "db_row list" where
  "chem_cat_rows = [sample_row ''QAU'' ''Gilgit'' ''Chemistry'' ''BBA'' 2023]"

definition ee_cat :: catalog where
  "ee_cat = boot [sample_row ''UET'' ''Lahore'' ''Electrical Engineering'' ''BS'' 2023]"

definition mandi_cat :: catalog where
  "mandi_cat = boot [sample_row ''UOG'' ''Mandi Bahauddin'' ''Physics'' ''BS'' 2023]"

definition isb_cat :: catalog where
  "isb_cat = boot [sample_row ''FAST'' ''ISB'' ''Computer Science'' ''BS'' 2023]"

section \<open>Closest-year fallback\<close>

lemma min_key_mem: "min_key key best ys \<in> set (best # ys)"
  by (induction ys arbitrary: best) auto

lemma min_key_le: "z \<in> set (best # ys) \<Longrightarrow> key (min_key key best ys) \<le> key z"
proof (induction ys arbitrary: best z)
  case Nil
  then show ?case by simp
next
  case (Cons y ys)
  let ?b = "if key y < key best then y else best"
  have best: "key (min_key key ?b ys) \<le> key ?b"
    using Cons.IH [where z = ?b and best = ?b] by simp
  from Cons.prems consider "z = best" | "z = y" | "z \<in> set ys" by auto
  then show ?case
  proof cases
    case 1
    with best show ?thesis by (auto split: if_splits)
  next
    case 2
    with best show ?thesis by (auto split: if_splits)
  next
    case 3
    then have "key (min_key key ?b ys) \<le> key z" using Cons.IH [where z = z and best = ?b] by simp
    then show ?thesis by simp
  qed
qed

lemma min_key_first:
  fixes best :: "'a :: linorder"
  assumes "sorted (best # ys)" and "z \<in> set (best # ys)"
    and "key z \<le> key (min_key key best ys)"
  shows "min_key key best ys \<le> z"
  using assms
proof (induction ys arbitrary: best z)
  case Nil
  then show ?case by simp
next
  case (Cons y ys)
  let ?b = "if key y < key best then y else best"
  let ?m = "min_key key ?b ys"
  have m: "min_key key best (y # ys) = ?m" by simp
  have srt: "sorted (?b # ys)" using Cons.prems(1) by auto
  have mb: "key ?m \<le> key ?b" by (rule min_key_le) simp
  have kz: "key z \<le> key ?m" using Cons.prems(3) by simp
  show ?case
  proof (cases "z \<in> set (?b # ys)")
    case True
    from Cons.IH [OF srt True kz] show ?thesis by simp
  next
    case False
    with Cons.prems(2) have zc: "(z = best \<and> key y < key best) \<or> (z = y \<and> \<not> key y < key best)"
      by (auto split: if_splits)
    then show ?thesis
    proof
      assume "z = best \<and> key y < key best"
      with mb kz show ?thesis by simp
    next
      assume a: "z = y \<and> \<not> key y < key best"
      then have "key best \<le> key ?m" using kz by simp
      moreover have "best \<in> set (?b # ys)" using a by simp
      ultimately have "?m \<le> best" using Cons.IH [where z = best and best = ?b] srt by simp
      moreover have "best \<le> y" using Cons.prems(1) by simp
      ultimately show ?thesis using a by simp
    qed
  qed
qed

lemma available_years_sorted: "sorted (available_years cat uni dept prog camp)"
  by (simp add: available_years_def)

text \<open>
  C3. Whenever the set of available years for (university, department, program, campus
  filter) is non-empty, \<open>closest_year\<close> returns a member of it at minimum absolute distance
  from the requested year, and among the years at that distance the earliest one.  With
  available years 2019 and 2022 and requested year 2021 it returns 2022; with 2019 and 2023
  it returns 2019.
\<close>

theorem closest_year_nearest_earliest:
  "(available_years cat uni dept prog camp \<noteq> [] \<longrightarrow>
      (\<exists>y. closest_year cat uni dept prog r camp = Some y
         \<and> y \<in> set (available_years cat uni dept prog camp)
         \<and> (\<forall>y' \<in> set (available_years cat uni dept prog camp).
               \<bar>y - r\<bar> \<le> \<bar>y' - r\<bar> \<and> (\<bar>y' - r\<bar> = \<bar>y - r\<bar> \<longrightarrow> y \<le> y'))))
   \<and> (available_years cat uni dept prog camp = [2019, 2022] \<longrightarrow>
        closest_year cat uni dept prog 2021 camp = Some 2022)
   \<and> (available_years cat uni dept prog camp = [2019, 2023] \<longrightarrow>
        closest_year cat uni dept prog 2021 camp = Some 2019)"
proof (intro conjI impI)
  assume ne: "available_years cat uni dept prog camp \<noteq> []"
  then obtain y0 ys where ys: "available_years cat uni dept prog camp = y0 # ys"
    by (cases "available_years cat uni dept prog camp") auto
  let ?key = "\<lambda>y. \<bar>y - r\<bar>"
  let ?y = "min_key ?key y0 ys"
  have srt: "sorted (y0 # ys)"
    using available_years_sorted [of cat uni dept prog camp] ys by simp
  have c: "closest_year cat uni dept prog r camp = Some ?y"
    by (simp add: closest_year_def ys)
  have m: "?y \<in> set (y0 # ys)" by (rule min_key_mem)
  have le: "\<And>y'. y' \<in> set (y0 # ys) \<Longrightarrow> \<bar>?y - r\<bar> \<le> \<bar>y' - r\<bar>"
    by (rule min_key_le [of _ y0 ys ?key])
  have tie: "\<And>y'. y' \<in> set (y0 # ys) \<Longrightarrow> \<bar>y' - r\<bar> = \<bar>?y - r\<bar> \<Longrightarrow> ?y \<le> y'"
    using min_key_first [OF srt, of _ ?key] by simp
  show "\<exists>y. closest_year cat uni dept prog r camp = Some y
         \<and> y \<in> set (available_years cat uni dept prog camp)
         \<and> (\<forall>y' \<in> set (available_years cat uni dept prog camp).
               \<bar>y - r\<bar> \<le> \<bar>y' - r\<bar> \<and> (\<bar>y' - r\<bar> = \<bar>y - r\<bar> \<longrightarrow> y \<le> y'))"
    unfolding ys using c m le tie by (intro exI [of _ ?y]) blast
next
  assume "available_years cat uni dept prog camp = [2019, 2022]"
  then show "closest_year cat uni dept prog 2021 camp = Some 2022"
    by (simp add: closest_year_def)
next
  assume "available_years cat uni dept prog camp = [2019, 2023]"
  then show "closest_year cat uni dept prog 2021 camp = Some 2019"
    by (simp add: closest_year_def)
qed

theorem closest_year_nearest_earliest_witness:
  "available_years (boot [fast_cs 2022, fast_cs 2019]) ''FAST'' ''Computer Science'' ''BS'' None
     = [2019, 2022]
   \<and> closest_year (boot [fast_cs 2022, fast_cs 2019]) ''FAST'' ''Computer Science'' ''BS'' 2021 None
     = Some 2022
   \<and> available_years (boot [fast_cs 2019, fast_cs 2023]) ''fast'' ''computer science'' ''bs''
        (Some ''islamabad'') = [2019, 2023]
   \<and> closest_year (boot [fast_cs 2019, fast_cs 2023]) ''fast'' ''computer science'' ''bs'' 2021
        (Some ''islamabad'') = Some 2019"
proof -
  have a: "available_years (boot [fast_cs 2022, fast_cs 2019]) ''FAST'' ''Computer Science'' ''BS''
             None = [2019, 2022]"
    by code_simp
  have b: "available_years (boot [fast_cs 2019, fast_cs 2023]) ''fast'' ''computer science'' ''bs''
             (Some ''islamabad'') = [2019, 2023]"
    by code_simp
  from a b
    closest_year_nearest_earliest
      [of "boot [fast_cs 2022, fast_cs 2019]" "''FAST''" "''Computer Science''" "''BS''" None]
    closest_year_nearest_earliest
      [of "boot [fast_cs 2019, fast_cs 2023]" "''fast''" "''computer science''" "''bs''"
          "Some ''islamabad''"]
  show ?thesis by simp
qed

section \<open>Year detection\<close>

lemma is_digit_val: "is_digit c \<Longrightarrow> 0 \<le> int (of_char c) - 48 \<and> int (of_char c) - 48 \<le> 9"
  by (auto simp: is_digit_def Let_def)

lemma year_match_here:
  assumes "match_here year_pattern prev s = Some m"
  shows "\<exists>d1 d2. is_digit d1 \<and> is_digit d2 \<and> (m = ''20'' @ [d1, d2] \<or> m = ''19'' @ [d1, d2])"
  using assms
  by (auto simp: match_here_def year_pattern_def lits_def split: list.splits if_splits)

lemma re_search_from_year:
  "re_search_from year_pattern prev s = Some m \<Longrightarrow>
     \<exists>d1 d2. is_digit d1 \<and> is_digit d2 \<and> (m = ''20'' @ [d1, d2] \<or> m = ''19'' @ [d1, d2])"
proof (induction s arbitrary: prev)
  case Nil
  then show ?case using year_match_here [of prev "[]" m] by simp
next
  case (Cons c cs)
  then show ?case using year_match_here [of prev "c # cs" m]
    by (auto split: option.splits)
qed

lemma year_digits_range:
  assumes "is_digit d1" "is_digit d2" "m = ''20'' @ [d1, d2] \<or> m = ''19'' @ [d1, d2]"
  shows "1900 \<le> int_of_digits m \<and> int_of_digits m \<le> 2099"
  using assms is_digit_val [of d1] is_digit_val [of d2]
  by (auto simp: int_of_digits_def)

lemma re_search_year_shape:
  assumes "re_search year_pattern s = Some m"
  shows "length m = 4 \<and> 1900 \<le> int_of_digits m \<and> int_of_digits m \<le> 2099"
proof -
  from assms obtain d1 d2 where d: "is_digit d1" "is_digit d2"
      "m = ''20'' @ [d1, d2] \<or> m = ''19'' @ [d1, d2]"
    unfolding re_search_def using re_search_from_year by blast
  from year_digits_range [OF d] d(3) show ?thesis by auto
qed

text \<open>
  C7 (as amended). Year detection is total and always yields an integer.  The phrase
  ``last year'' is tested first: when it occurs the result is the current year minus one,
  whether or not the message also carries an explicit year.  Otherwise the first standalone
  four-digit year of the form 19dd or 20dd yields that year, and a message with neither
  yields the current year.
\<close>

theorem detect_year_last_year_first:
  "(re_search last_year_pattern (lower msg) \<noteq> None \<longrightarrow>
      detect_year_from_text now_y msg = now_y - 1)
   \<and> (re_search last_year_pattern (lower msg) = None \<longrightarrow>
        (\<forall>m. re_search year_pattern (lower msg) = Some m \<longrightarrow>
           detect_year_from_text now_y msg = int_of_digits m
           \<and> length m = 4 \<and> 1900 \<le> int_of_digits m \<and> int_of_digits m \<le> 2099))
   \<and> (re_search last_year_pattern (lower msg) = None
        \<and> re_search year_pattern (lower msg) = None \<longrightarrow>
        detect_year_from_text now_y msg = now_y)"
  using re_search_year_shape [of "lower msg"]
  by (auto simp: detect_year_from_text_def Let_def)

theorem detect_year_last_year_first_witness:
  "re_search last_year_pattern (lower ''merit last year vs 2019'') \<noteq> None
   \<and> detect_year_from_text 2026 ''merit last year vs 2019'' = 2025
   \<and> re_search last_year_pattern (lower ''BS CS at FAST 2023'') = None
   \<and> re_search year_pattern (lower ''BS CS at FAST 2023'') = Some ''2023''
   \<and> detect_year_from_text 2026 ''BS CS at FAST 2023'' = 2023
   \<and> re_search last_year_pattern (lower ''BS CS at FAST'') = None
   \<and> re_search year_pattern (lower ''BS CS at FAST'') = None
   \<and> detect_year_from_text 2026 ''BS CS at FAST'' = 2026"
proof -
  have a: "re_search last_year_pattern (lower ''merit last year vs 2019'') \<noteq> None"
    by code_simp
  have b: "re_search last_year_pattern (lower ''BS CS at FAST 2023'') = None"
    "re_search year_pattern (lower ''BS CS at FAST 2023'') = Some ''2023''"
    by code_simp+
  have c: "re_search last_year_pattern (lower ''BS CS at FAST'') = None"
    "re_search year_pattern (lower ''BS CS at FAST'') = None"
    by code_simp+
  have d: "int_of_digits ''2023'' = 2023" by code_simp
  from a b c d
    detect_year_last_year_first [of "''merit last year vs 2019''" 2026]
    detect_year_last_year_first [of "''BS CS at FAST 2023''" 2026]
    detect_year_last_year_first [of "''BS CS at FAST''" 2026]
  show ?thesis by simp
qed

text \<open>
  The claim as stated lets an explicit four-digit year decide.  In the message below the
  pattern finds 2019, yet the result is the year before the current one.
\<close>

theorem explicit_year_after_last_year_counterexample:
  "re_search year_pattern (lower ''merit last year vs 2019'') = Some ''2019''
   \<and> detect_year_from_text 2026 ''merit last year vs 2019'' = 2025"
  by code_simp

section \<open>Policy questions\<close>

text \<open>
  C10 (as amended). For every message matching the policy pattern the handler returns the
  canned policy reply right after the session lookup that opens the handler: that lookup is
  the only access to the session store on this path, its result is not used, and the store
  is returned unchanged.  Catalog, hint and clock do not enter the result, so no extraction,
  normalization or record lookup takes place, even when the message also carries a complete
  merit query.
\<close>

theorem policy_question_short_circuit:
  "is_policy_question (message req) \<Longrightarrow>
     chat cat now_y info req user_context
       = Inr (PolicyReply, user_context, [Get (session_key req)])"
  by (simp add: chat_def Let_def)

theorem policy_question_short_circuit_witness:
  "is_policy_question (message policy_req)
   \<and> chat (boot [fast_cs 2023]) 2026 None policy_req Map.empty
       = Inr (PolicyReply, Map.empty, [Get ''s1''])
   \<and> resolve_slots (boot [fast_cs 2023]) 2026 None (message policy_req)
       = Inr (Some ''FAST'', ''Islamabad'', Some ''Computer Science'', Some ''BS'', Some 2023)"
proof -
  have a: "is_policy_question (message policy_req)" by code_simp
  have b: "session_key policy_req = ''s1''" by code_simp
  have c: "resolve_slots (boot [fast_cs 2023]) 2026 None (message policy_req)
       = Inr (Some ''FAST'', ''Islamabad'', Some ''Computer Science'', Some ''BS'', Some 2023)"
    by code_simp
  from policy_question_short_circuit [OF a, of "boot [fast_cs 2023]" 2026 None Map.empty] b c a
  show ?thesis by simp
qed

text \<open>
  The claim as stated excludes any read of the session store; the access log of the policy
  path holds one.
\<close>

theorem policy_path_reads_session_counterexample:
  "is_policy_question (message policy_req)
   \<and> chat (boot [fast_cs 2023]) 2026 None policy_req Map.empty
       = Inr (PolicyReply, Map.empty, [Get ''s1''])"
proof -
  have a: "is_policy_question (message policy_req)" by code_simp
  have b: "session_key policy_req = ''s1''" by code_simp
  from a b show ?thesis by (simp add: chat_def Let_def)
qed

section \<open>Program extraction\<close>

text \<open>
  C6. The source announces three tiers for the program slot (aliases, substrings, safe
  fuzzy), as the department slot has, but only the first two are present: on the message
  below neither an alias nor a vocabulary substring is found, the fuzzy token tier at cutoff
  0.90 would find ``Diploma'', and the extractor returns the default ``BS''.
\<close>

theorem extract_prog_skips_fuzzy_tier:
  "PROGS diploma_cat = [''Diploma'']
   \<and> alias_word_hit prog_aliases (lower ''Diplomma in Physics at FAST'') = None
   \<and> substring_hit (PROGS diploma_cat) (lower ''Diplomma in Physics at FAST'') = None
   \<and> first_fuzzy (tokens 2 (lower ''Diplomma in Physics at FAST'')) (PROGS diploma_cat) (90 / 100)
       = Some ''Diploma''
   \<and> cheap_extract diploma_cat 2026 ''Diplomma in Physics at FAST''
       = (Some ''FAST'', None, Some ''Physics'', Some ''BS'', 2026)"
  by code_simp

section \<open>Merging the hint with the extractor\<close>

lemma get_field_returns: "\<not> raising_value f \<Longrightarrow> get_field f \<noteq> NonStr True"
  by (cases f) auto

lemma get_default_returns: "\<not> raising_value f \<Longrightarrow> get_default f d \<noteq> NonStr True"
  by (cases f) auto

lemma val_or_returns: "v \<noteq> NonStr True \<Longrightarrow> val_or v b \<noteq> NonStr True"
  by (simp add: val_or_def)

lemma call_norm_returns: "v \<noteq> NonStr True \<Longrightarrow> \<exists>r. call_norm err f dflt v = Inr r"
  by (cases v) auto

lemma llm_extract_returns:
  assumes "\<not> raising_hint info"
    and "llm_extract now_y msg info = (uni, camp, dept, prog, yr)"
  shows "uni \<noteq> NonStr True \<and> camp \<noteq> NonStr True \<and> dept \<noteq> NonStr True \<and> prog \<noteq> NonStr True"
proof (cases info)
  case None
  with assms(2) show ?thesis by (auto simp: llm_extract_def)
next
  case (Some h)
  with assms(1) have
    "get_field (h_university h) \<noteq> NonStr True" "get_default (h_campus h) [] \<noteq> NonStr True"
    "get_field (h_department h) \<noteq> NonStr True" "get_default (h_program h) ''BS'' \<noteq> NonStr True"
    by (simp_all add: raising_hint_def get_field_returns get_default_returns)
  with Some assms(2) show ?thesis
    by (cases "dict_nonempty h") (auto simp: llm_extract_def)
qed

lemma merge_fallback_returns:
  assumes "uni \<noteq> NonStr True" "camp \<noteq> NonStr True" "dept \<noteq> NonStr True" "prog \<noteq> NonStr True"
    and "merge_fallback cat now_y msg (uni, camp, dept, prog, yr) = (uni', camp', dept', prog', yr')"
  shows "uni' \<noteq> NonStr True \<and> camp' \<noteq> NonStr True \<and> dept' \<noteq> NonStr True \<and> prog' \<noteq> NonStr True"
  using assms
  by (auto simp: merge_fallback_def val_or_returns split: if_splits prod.splits)

lemma normalize_slots_returns:
  assumes "uni \<noteq> NonStr True" "camp \<noteq> NonStr True" "dept \<noteq> NonStr True" "prog \<noteq> NonStr True"
  shows "\<exists>r. normalize_slots cat (uni, camp, dept, prog, yr) = Inr r"
proof -
  from call_norm_returns [where err = AttributeError and f = "norm_uni cat" and dflt = None, OF assms(1)] obtain u
    where u: "call_norm AttributeError (norm_uni cat) None uni = Inr u" by blast
  from call_norm_returns [where err = AttributeError and f = "norm_dept cat" and dflt = None, OF assms(3)] obtain d
    where d: "call_norm AttributeError (norm_dept cat) None dept = Inr d" by blast
  from call_norm_returns [where err = AttributeError and f = "norm_prog cat" and dflt = None, OF assms(4)] obtain p
    where p: "call_norm AttributeError (norm_prog cat) None prog = Inr p" by blast
  from call_norm_returns [where err = TypeError and f = "norm_campus cat" and dflt = "[]", OF assms(2)] obtain c
    where c: "call_norm TypeError (norm_campus cat) [] camp = Inr c" by blast
  from u d p c show ?thesis by (simp add: normalize_slots_def Let_def)
qed

lemma resolve_slots_returns:
  assumes "\<not> raising_hint info"
  shows "\<exists>r. resolve_slots cat now_y info msg = Inr r"
proof -
  obtain uni camp dept prog yr
    where l: "llm_extract now_y msg info = (uni, camp, dept, prog, yr)"
    by (metis prod_cases5)
  obtain uni' camp' dept' prog' yr'
    where m: "merge_fallback cat now_y msg (uni, camp, dept, prog, yr) = (uni', camp', dept', prog', yr')"
    by (metis prod_cases5)
  from llm_extract_returns [OF assms l]
  have "uni \<noteq> NonStr True" "camp \<noteq> NonStr True" "dept \<noteq> NonStr True" "prog \<noteq> NonStr True"
    by simp_all
  from merge_fallback_returns [OF this m]
  have "uni' \<noteq> NonStr True" "camp' \<noteq> NonStr True" "dept' \<noteq> NonStr True" "prog' \<noteq> NonStr True"
    by simp_all
  from normalize_slots_returns [OF this] l m show ?thesis
    by (simp add: resolve_slots_def)
qed







text \<open>
  A hint with a truthy non-string value in a text field is not absorbed.  The hint below is
  an object whose campus is a list of two names.  Nothing raises while it is read inside the
  \<^verbatim>\<open>try\<close> block, the four other fields are present so the extractor is not consulted, and
  the campus normalizer, called outside the \<^verbatim>\<open>try\<close> block, raises on the list: the handler
  ends in an exception, where the same turn without a hint returns a reply.  The \<^verbatim>\<open>try\<close>
  block shows that an unusable hint was meant to be tolerated; this one is not.
\<close>

lemma list_campus_hint_raises:
  "raising_hint (Some list_campus_hint)
   \<and> merge_fallback (boot [fast_cs 2023]) 2026 ''CS at FAST isb''
        (llm_extract 2026 ''CS at FAST isb'' (Some list_campus_hint))
     = (Txt (Some ''FAST''), NonStr True, Txt (Some ''CS''), Txt (Some ''BS''), Some 2023)
   \<and> chat (boot [fast_cs 2023]) 2026 (Some list_campus_hint) (turn ''CS at FAST isb'') Map.empty
     = Inl TypeError
   \<and> map_sum (\<lambda>e. e) fst (chat (boot [fast_cs 2023]) 2026 None (turn ''CS at FAST isb'') Map.empty)
     = Inr (SingleReply (Some ''FAST'') (Some ''Computer Science'') (Some ''BS'') ''Islamabad''
              (Some 2026))"
proof -
  have a: "raising_hint (Some list_campus_hint)" by code_simp
  have d: "merge_fallback (boot [fast_cs 2023]) 2026 ''CS at FAST isb''
        (llm_extract 2026 ''CS at FAST isb'' (Some list_campus_hint))
     = (Txt (Some ''FAST''), NonStr True, Txt (Some ''CS''), Txt (Some ''BS''), Some 2023)"
    by code_simp
  have p: "\<not> is_policy_question (message (turn ''CS at FAST isb''))" by code_simp
  have r: "resolve_slots (boot [fast_cs 2023]) 2026 (Some list_campus_hint)
             (message (turn ''CS at FAST isb'')) = Inl TypeError"
    by code_simp
  from p r have e:
    "chat (boot [fast_cs 2023]) 2026 (Some list_campus_hint) (turn ''CS at FAST isb'') Map.empty
       = Inl TypeError"
    by (simp add: chat_def Let_def)
  have f:
    "map_sum (\<lambda>e. e) fst (chat (boot [fast_cs 2023]) 2026 None (turn ''CS at FAST isb'') Map.empty)
       = Inr (SingleReply (Some ''FAST'') (Some ''Computer Science'') (Some ''BS'') ''Islamabad''
                (Some 2026))"
    by code_simp
  from a d e f show ?thesis by blast
qed

section \<open>Dialogue state\<close>

text \<open>
  C1. The handler stores the known slots when it asks a question, but never reads them back:
  each turn is resolved from its own message alone.  In the session below the first turn
  supplies the university and is asked for the department; the second turn supplies the
  department, and the handler asks for the university again and overwrites the stored
  university with an empty value.
\<close>

theorem second_turn_forgets_university:
  "chat (boot [fast_cs 2023]) 2026 None (turn ''FAST'') Map.empty
     = Inr (AskDepartmentAt ''FAST'' [''Computer Science''],
            [''s1'' \<mapsto> \<lparr>awaiting = ''department'', known_university = Some ''FAST'',
                         known_department = None, known_program = Some ''BS'',
                         known_campus = [], known_year = Some 2026\<rparr>],
            [Get ''s1'',
             Put ''s1'' \<lparr>awaiting = ''department'', known_university = Some ''FAST'',
                         known_department = None, known_program = Some ''BS'',
                         known_campus = [], known_year = Some 2026\<rparr>])
   \<and> chat (boot [fast_cs 2023]) 2026 None (turn ''Computer Science'')
         [''s1'' \<mapsto> \<lparr>awaiting = ''department'', known_university = Some ''FAST'',
                     known_department = None, known_program = Some ''BS'',
                     known_campus = [], known_year = Some 2026\<rparr>]
     = Inr (AskUniversity [''FAST''],
            [''s1'' \<mapsto> \<lparr>awaiting = ''university'', known_university = None,
                         known_department = Some ''Computer Science'', known_program = Some ''BS'',
                         known_campus = [], known_year = Some 2026\<rparr>],
            [Get ''s1'',
             Put ''s1'' \<lparr>awaiting = ''university'', known_university = None,
                         known_department = Some ''Computer Science'', known_program = Some ''BS'',
                         known_campus = [], known_year = Some 2026\<rparr>])"
proof -
  have k: "session_key (turn ''FAST'') = ''s1''" "session_key (turn ''Computer Science'') = ''s1''"
    by code_simp+
  have p: "\<not> is_policy_question (message (turn ''FAST''))"
    "\<not> is_policy_question (message (turn ''Computer Science''))"
    by code_simp+
  have r1: "resolve_slots (boot [fast_cs 2023]) 2026 None (message (turn ''FAST''))
      = Inr (Some ''FAST'', [], None, Some ''BS'', Some 2026)"
    by code_simp
  have r2: "resolve_slots (boot [fast_cs 2023]) 2026 None (message (turn ''Computer Science''))
      = Inr (None, [], Some ''Computer Science'', Some ''BS'', Some 2026)"
    by code_simp
  have a1: "ask_reply (boot [fast_cs 2023]) ''department'' (Some ''FAST'') None
      = AskDepartmentAt ''FAST'' [''Computer Science'']"
    by code_simp
  have a2: "ask_reply (boot [fast_cs 2023]) ''university'' None (Some ''Computer Science'')
      = AskUniversity [''FAST'']"
    by code_simp
  show ?thesis
    by (simp add: chat_def Let_def k p r1 r2 a1 a2 missing_slots_def)
qed

section \<open>The program slot\<close>

lemma dropWhile_self: "xs = [] \<or> \<not> P (hd xs) \<Longrightarrow> dropWhile P xs = xs"
  by (cases xs) auto

lemma last_dropWhile: "dropWhile P xs \<noteq> [] \<Longrightarrow> last (dropWhile P xs) = last xs"
  by (induction xs) (auto split: if_splits)

lemma strip_ends:
  assumes "strip s \<noteq> []"
  shows "\<not> is_space (hd (strip s)) \<and> \<not> is_space (last (strip s))"
proof -
  let ?u = "dropWhile is_space s"
  let ?v = "dropWhile is_space (rev ?u)"
  have v: "?v \<noteq> []" using assms by (simp add: strip_def)
  have u: "?u \<noteq> []"
  proof
    assume a: "?u = []"
    have "?v = []" unfolding a by simp
    with v show False by simp
  qed
  have "last (strip s) = hd ?v" by (simp add: strip_def last_rev)
  moreover have "\<not> is_space (hd ?v)" using v by (rule hd_dropWhile)
  moreover have "hd (strip s) = last ?v" by (simp add: strip_def hd_rev)
  moreover have "last ?v = last (rev ?u)" using v by (rule last_dropWhile)
  moreover have "last (rev ?u) = hd ?u" by (simp add: last_rev)
  moreover have "\<not> is_space (hd ?u)" using u by (rule hd_dropWhile)
  ultimately show ?thesis by simp
qed

lemma strip_fixed:
  assumes "t = [] \<or> (\<not> is_space (hd t) \<and> \<not> is_space (last t))"
  shows "strip t = t"
proof -
  have 1: "dropWhile is_space t = t" using assms by (intro dropWhile_self) auto
  have "rev t = [] \<or> \<not> is_space (hd (rev t))" using assms by (auto simp: hd_rev)
  then have 2: "dropWhile is_space (rev t) = rev t" by (rule dropWhile_self)
  show ?thesis by (simp add: strip_def 1 2)
qed

lemma strip_strip: "strip (strip s) = strip s"
  using strip_ends [of s] by (intro strip_fixed) auto

lemma prog_alias_values_all: "list_all (\<lambda>(k, v). strip v \<noteq> []) prog_aliases"
  by code_simp

lemma prog_alias_values_nonblank: "(k, v) \<in> set prog_aliases \<Longrightarrow> strip v \<noteq> []"
  using prog_alias_values_all by (auto simp: list_all_iff)

lemma strip_Nil [simp]: "strip [] = []"
  by (simp add: strip_def)

lemma vocabulary_boot:
  assumes "p \<in> set (vocabulary field (grab_merit_data rows))"
    and "\<And>r. field (grab_row r) = strip (or_empty (g r))"
  shows "p \<noteq> [] \<and> strip p = p"
proof -
  from assms(1) obtain r where "p = field (grab_row r)" "p \<noteq> []"
    by (auto simp: vocabulary_def grab_merit_data_def)
  with assms(2) [of r] show ?thesis by (simp add: strip_strip)
qed

lemma PROGS_boot: "p \<in> set (PROGS (boot rows)) \<Longrightarrow> p \<noteq> [] \<and> strip p = p"
  using vocabulary_boot [of p Program rows db_Program]
  by (simp add: boot_def Let_def grab_row_def)

lemma alias_word_hit_value:
  "alias_word_hit aliases msg_l = Some v \<Longrightarrow> \<exists>k. (k, v) \<in> set aliases"
  by (auto simp: alias_word_hit_def find_Some_iff) (metis nth_mem prod.collapse)

lemma substring_hit_mem: "substring_hit vocab msg_l = Some v \<Longrightarrow> v \<in> set vocab"
  by (auto simp: substring_hit_def find_Some_iff)

lemma extract_prog_nonblank:
  "\<exists>p. extract_prog (boot rows) msg_l = Some p \<and> strip p \<noteq> []"
proof (cases "alias_word_hit prog_aliases msg_l")
  case None
  show ?thesis
  proof (cases "substring_hit (PROGS (boot rows)) msg_l")
    case None
    have "strip ''BS'' \<noteq> []" by code_simp
    with None \<open>alias_word_hit prog_aliases msg_l = None\<close> show ?thesis
      by (simp add: extract_prog_def if_not_found_def)
  next
    case (Some p)
    from substring_hit_mem [OF Some] PROGS_boot have "p \<noteq> [] \<and> strip p = p" by blast
    with Some \<open>alias_word_hit prog_aliases msg_l = None\<close> show ?thesis
      by (simp add: extract_prog_def if_not_found_def)
  qed
next
  case (Some v)
  from alias_word_hit_value [OF Some] prog_alias_values_nonblank have nb: "strip v \<noteq> []" by blast
  then have "v \<noteq> []" by auto
  with Some nb show ?thesis
    by (simp add: extract_prog_def if_not_found_def)
qed

lemma norm_prog_nonblank:
  assumes "strip p \<noteq> []"
  shows "\<exists>v. norm_prog cat p = Some v \<and> v \<noteq> []"
proof -
  from assms have p: "p \<noteq> []" by auto
  show ?thesis
  proof (cases "map_of prog_aliases (squash (lower (strip p)))")
    case (Some v)
    then have "(squash (lower (strip p)), v) \<in> set prog_aliases" by (rule map_of_SomeD)
    from prog_alias_values_nonblank [OF this] have "v \<noteq> []" by auto
    with Some p show ?thesis by (simp add: norm_prog_def)
  next
    case None
    with p assms show ?thesis
      by (cases "fuzzy_pick p (PROGS cat) (90 / 100)") (auto simp: norm_prog_def py_or_def)
  qed
qed

lemma merged_prog_nonblank:
  assumes "\<forall>h s. info = Some h \<longrightarrow> h_program h = Str s \<longrightarrow> s \<noteq> [] \<longrightarrow> strip s \<noteq> []"
  shows "\<exists>uni camp dept p yr.
           merge_fallback (boot rows) now_y msg (llm_extract now_y msg info)
             = (uni, camp, dept, p, yr)
           \<and> (p = NonStr True \<or> (\<exists>s. p = Txt (Some s) \<and> strip s \<noteq> []))"
proof -
  obtain f_uni f_camp f_dep f_prog f_yr
    where f: "cheap_extract (boot rows) now_y msg = (f_uni, f_camp, f_dep, f_prog, f_yr)"
    by (metis prod_cases5)
  from extract_prog_nonblank [of rows "lower msg"] f obtain fp
    where fp: "f_prog = Some fp" "strip fp \<noteq> []"
    by (auto simp: cheap_extract_def Let_def)
  then have fpt: "fp \<noteq> []" by auto
  obtain h_uni h_camp h_dep h_prog h_yr
    where l: "llm_extract now_y msg info = (h_uni, h_camp, h_dep, h_prog, h_yr)"
    by (metis prod_cases5)
  have hp: "\<not> truthy_val h_prog \<or> h_prog = NonStr True
            \<or> (\<exists>s. h_prog = Txt (Some s) \<and> strip s \<noteq> [])"
  proof (cases info)
    case None
    with l show ?thesis by (auto simp: llm_extract_def)
  next
    case (Some h)
    have bs: "strip ''BS'' \<noteq> []" by code_simp
    show ?thesis
    proof (cases "dict_nonempty h")
      case False
      with Some l show ?thesis by (auto simp: llm_extract_def)
    next
      case True
      with Some l have "h_prog = get_default (h_program h) ''BS''"
        by (simp add: llm_extract_def)
      with assms Some bs show ?thesis
        by (cases "h_program h") auto
    qed
  qed
  then consider "\<not> truthy_val h_prog" | "h_prog = NonStr True"
    | s where "h_prog = Txt (Some s)" "strip s \<noteq> []"
    by blast
  then show ?thesis
  proof cases
    case 1
    with f l fp fpt show ?thesis
      by (simp add: merge_fallback_def val_or_def)
  next
    case 2
    with f l show ?thesis
      by (simp add: merge_fallback_def val_or_def)
  next
    case 3
    then have "s \<noteq> []" by auto
    with f l 3 show ?thesis
      by (simp add: merge_fallback_def val_or_def)
  qed
qed

lemma resolved_prog_truthy:
  assumes "\<forall>h s. info = Some h \<longrightarrow> h_program h = Str s \<longrightarrow> s \<noteq> [] \<longrightarrow> strip s \<noteq> []"
    and "resolve_slots (boot rows) now_y info msg = Inr (uni, camp, dept, prog, yr)"
  shows "truthy prog"
proof -
  from merged_prog_nonblank [OF assms(1), of rows now_y msg]
  obtain uni0 camp0 dept0 p yr0 where m:
    "merge_fallback (boot rows) now_y msg (llm_extract now_y msg info)
       = (uni0, camp0, dept0, p, yr0)"
    "p = NonStr True \<or> (\<exists>s. p = Txt (Some s) \<and> strip s \<noteq> [])"
    by blast
  from m(2) show ?thesis
  proof
    assume "p = NonStr True"
    with m(1) assms(2) show ?thesis
      by (simp add: resolve_slots_def normalize_slots_def Let_def split: sum.splits)
  next
    assume "\<exists>s. p = Txt (Some s) \<and> strip s \<noteq> []"
    then obtain s where s: "p = Txt (Some s)" "strip s \<noteq> []" by blast
    then have ne: "s \<noteq> []" by auto
    from norm_prog_nonblank [OF s(2), of "boot rows"] obtain v
      where "norm_prog (boot rows) s = Some v" "v \<noteq> []" by blast
    then have t: "truthy (norm_prog (boot rows) s)" by simp
    from m(1) s(1) assms(2) ne have "prog = norm_prog (boot rows) s"
      by (auto simp: resolve_slots_def normalize_slots_def Let_def split: sum.splits)
    with t show ?thesis by simp
  qed
qed

lemma missing_slots_program: "truthy prog \<Longrightarrow> ''program'' \<notin> set (missing_slots uni dept prog)"
  by (simp add: missing_slots_def)

lemma missing_slots_head:
  "missing_slots uni dept prog = a # rest \<Longrightarrow> truthy prog \<Longrightarrow>
     a = ''university'' \<or> a = ''department''"
  by (auto simp: missing_slots_def split: if_splits)

lemma ask_reply_not_program:
  "a = ''university'' \<or> a = ''department'' \<Longrightarrow>
     ask_reply cat a uni dept \<noteq> AskProgram
     \<and> (\<forall>d u ps. ask_reply cat a uni dept \<noteq> AskProgramFor d u ps)"
  by (auto simp: ask_reply_def)

lemma chat_not_program_prompt:
  assumes "\<forall>h s. info = Some h \<longrightarrow> h_program h = Str s \<longrightarrow> s \<noteq> [] \<longrightarrow> strip s \<noteq> []"
  shows "chat (boot rows) now_y info req user_context \<noteq> Inr (AskProgram, st, ops)
         \<and> chat (boot rows) now_y info req user_context \<noteq> Inr (AskProgramFor d u ps, st, ops)"
proof (cases "is_policy_question (message req)")
  case True
  then show ?thesis by (simp add: chat_def Let_def)
next
  case False
  show ?thesis
  proof (cases "resolve_slots (boot rows) now_y info (message req)")
    case (Inl e)
    with False show ?thesis by (simp add: chat_def Let_def)
  next
    case (Inr r)
    obtain uni camp dept prog yr where r: "r = (uni, camp, dept, prog, yr)"
      by (metis prod_cases5)
    from resolved_prog_truthy [OF assms Inr [unfolded r]] have t: "truthy prog" .
    show ?thesis
    proof (cases "missing_slots uni dept prog")
      case Nil
      with False Inr r show ?thesis
        by (simp add: chat_def Let_def split: prod.splits)
    next
      case (Cons a rest)
      from ask_reply_not_program [OF missing_slots_head [OF Cons t], of "boot rows" uni dept]
      have "ask_reply (boot rows) a uni dept \<noteq> AskProgram"
        "ask_reply (boot rows) a uni dept \<noteq> AskProgramFor d u ps" by simp_all
      with False Inr r Cons show ?thesis
        by (simp add: chat_def Let_def)
    qed
  qed
qed

text \<open>
  C9 (as amended). For a catalog loaded from the database and every turn whose hint carries
  no program, an empty program, or a program with at least one non-blank character, the
  program slot is non-empty at the completeness check: the extractor always returns a
  non-blank program (defaulting to ``BS''), and normalizing a non-blank program yields a
  non-empty string.  On those turns ``program'' is not among the missing slots and neither
  program prompt is returned.  The completeness check is reached, with such a program slot,
  on every turn whose hint has no truthy non-string value in a text field.
\<close>

theorem program_slot_filled:
  assumes "\<forall>h s. info = Some h \<longrightarrow> h_program h = Str s \<longrightarrow> s \<noteq> [] \<longrightarrow> strip s \<noteq> []"
  shows "(\<forall>uni camp dept prog yr.
            resolve_slots (boot rows) now_y info (message req) = Inr (uni, camp, dept, prog, yr) \<longrightarrow>
              truthy prog \<and> ''program'' \<notin> set (missing_slots uni dept prog))
         \<and> (\<forall>st ops. chat (boot rows) now_y info req user_context \<noteq> Inr (AskProgram, st, ops))
         \<and> (\<forall>d u ps st ops.
               chat (boot rows) now_y info req user_context \<noteq> Inr (AskProgramFor d u ps, st, ops))
         \<and> (\<not> raising_hint info \<longrightarrow>
              (\<exists>uni camp dept prog yr.
                 resolve_slots (boot rows) now_y info (message req) = Inr (uni, camp, dept, prog, yr)
                 \<and> truthy prog
                 \<and> ''program'' \<notin> set (missing_slots uni dept prog)))"
proof -
  have reach: "truthy prog \<and> ''program'' \<notin> set (missing_slots uni dept prog)"
    if "resolve_slots (boot rows) now_y info (message req) = Inr (uni, camp, dept, prog, yr)"
    for uni camp dept prog yr
    using resolved_prog_truthy [OF assms that] missing_slots_program by blast
  have total: "\<exists>uni camp dept prog yr.
                 resolve_slots (boot rows) now_y info (message req) = Inr (uni, camp, dept, prog, yr)
                 \<and> truthy prog
                 \<and> ''program'' \<notin> set (missing_slots uni dept prog)"
    if "\<not> raising_hint info"
  proof -
    from resolve_slots_returns [OF that, of "boot rows" now_y "message req"]
    obtain uni camp dept prog yr
      where "resolve_slots (boot rows) now_y info (message req) = Inr (uni, camp, dept, prog, yr)"
      by (metis prod_cases5)
    with reach show ?thesis by blast
  qed
  from reach total chat_not_program_prompt [OF assms, of rows now_y req user_context]
  show ?thesis by blast
qed

theorem program_slot_filled_witness:
  "h_program ms_hint = Str ''ms '' \<and> strip ''ms '' \<noteq> []
   \<and> \<not> raising_hint (Some ms_hint)
   \<and> resolve_slots (boot [fast_cs 2023]) 2026 (Some ms_hint) (message (turn ''hello''))
       = Inr (None, [], Some ''Computer Science'', Some ''MS'', Some 2026)
   \<and> truthy (Some ''MS'')
   \<and> ''program'' \<notin> set (missing_slots None (Some ''Computer Science'') (Some ''MS''))
   \<and> (\<forall>st ops. chat (boot [fast_cs 2023]) 2026 (Some ms_hint) (turn ''hello'') Map.empty
          \<noteq> Inr (AskProgram, st, ops))
   \<and> (\<forall>d u ps st ops. chat (boot [fast_cs 2023]) 2026 (Some ms_hint) (turn ''hello'') Map.empty
          \<noteq> Inr (AskProgramFor d u ps, st, ops))"
proof -
  have s: "strip ''ms '' \<noteq> []" by code_simp
  have h: "h_program ms_hint = Str ''ms ''" by (simp add: ms_hint_def)
  have n: "\<not> raising_hint (Some ms_hint)" by code_simp
  have hyp: "\<forall>h s. Some ms_hint = Some h \<longrightarrow> h_program h = Str s \<longrightarrow> s \<noteq> [] \<longrightarrow> strip s \<noteq> []"
    using s h by auto
  have r: "resolve_slots (boot [fast_cs 2023]) 2026 (Some ms_hint) (message (turn ''hello''))
       = Inr (None, [], Some ''Computer Science'', Some ''MS'', Some 2026)"
    by code_simp
  from program_slot_filled [OF hyp, of "[fast_cs 2023]" 2026 "turn ''hello''" Map.empty] r
  have "truthy (Some ''MS'')
    \<and> ''program'' \<notin> set (missing_slots None (Some ''Computer Science'') (Some ''MS''))
    \<and> (\<forall>st ops. chat (boot [fast_cs 2023]) 2026 (Some ms_hint) (turn ''hello'') Map.empty
          \<noteq> Inr (AskProgram, st, ops))
    \<and> (\<forall>d u ps st ops. chat (boot [fast_cs 2023]) 2026 (Some ms_hint) (turn ''hello'') Map.empty
          \<noteq> Inr (AskProgramFor d u ps, st, ops))"
    by blast
  with s h n r show ?thesis by blast
qed

text \<open>
  The claim as stated covers every turn.  A hint whose program is a blank string is kept by
  the merge and normalizes to the empty string, so the program prompt is returned.
\<close>

theorem blank_hint_program_counterexample:
  "resolve_slots (boot [fast_cs 2023]) 2026 (Some blank_hint) ''CS at FAST''
     = Inr (Some ''FAST'', [], Some ''Computer Science'', Some [], Some 2023)
   \<and> missing_slots (Some ''FAST'') (Some ''Computer Science'') (Some []) = [''program'']
   \<and> map_sum (\<lambda>e. e) fst
        (chat (boot [fast_cs 2023]) 2026 (Some blank_hint) (turn ''CS at FAST'') Map.empty)
     = Inr (AskProgramFor ''Computer Science'' ''FAST'' [''BS''])"
  by code_simp

section \<open>The similarity score\<close>

lemma next_row_nth:
  assumes "length row = length b" "j < length b"
  shows "next_row x b row ! j = (if x = b ! j then Suc ((0 # row) ! j) else 0)"
  using assms by simp

lemma prefix_row_next:
  assumes "prefix_row a b i row" and "i < length a"
  shows "prefix_row a b (Suc i) (next_row (a ! i) b row)"
proof -
  from assms(1) have len: "length row = length b" by (simp add: prefix_row_def)
  have "m < Suc i \<and> m \<le> j \<and> a ! (Suc i - 1 - m) = b ! (j - m)"
    if j: "j < length b" and m: "m < next_row (a ! i) b row ! j" for j m
  proof -
    from m next_row_nth [OF len j, of "a ! i"]
    have eq: "a ! i = b ! j" and m': "m < Suc ((0 # row) ! j)"
      by (auto split: if_splits)
    show ?thesis
    proof (cases m)
      case 0
      with eq show ?thesis by simp
    next
      case (Suc m')
      with m' have "m' < (0 # row) ! j" by simp
      then obtain j' where j': "j = Suc j'" and r: "m' < row ! j'"
        by (cases j) auto
      from j j' have "j' < length b" by simp
      with assms(1) r have "m' < i \<and> m' \<le> j' \<and> a ! (i - 1 - m') = b ! (j' - m')"
        by (auto simp: prefix_row_def)
      with Suc j' show ?thesis by simp
    qed
  qed
  moreover have "length (next_row (a ! i) b row) = length b" using len by simp
  ultimately show ?thesis unfolding prefix_row_def by blast
qed

lemma scan_row_block_ok:
  assumes "prefix_row a b (Suc i) row" and "i < length a"
    and "row = pre @ ks" and "length pre = j"
    and "block_ok a b best"
  shows "block_ok a b (scan_row i j ks best)"
  using assms(3-5)
proof (induction ks arbitrary: pre j best)
  case Nil
  then show ?case by simp
next
  case (Cons k ks)
  obtain bi bj bs where b: "best = (bi, bj, bs)" by (metis prod_cases3)
  from assms(1) have len: "length row = length b" by (simp add: prefix_row_def)
  from Cons.prems(1,2) len have j: "j < length b" by auto
  from Cons.prems(1,2) have k: "row ! j = k" by auto
  let ?best' = "if k > bs then (Suc i - k, Suc j - k, k) else (bi, bj, bs)"
  have ok: "block_ok a b ?best'"
  proof (cases "k > bs")
    case False
    with Cons.prems(3) b show ?thesis by simp
  next
    case True
    from assms(1) j k have P: "\<forall>m < k. m < Suc i \<and> m \<le> j \<and> a ! (Suc i - 1 - m) = b ! (j - m)"
      by (auto simp: prefix_row_def)
    have ki: "k \<le> Suc i" and kj: "k \<le> Suc j"
    proof -
      show "k \<le> Suc i"
      proof (cases k)
        case 0 then show ?thesis by simp
      next
        case (Suc k') with P have "k' < Suc i" by simp
        with Suc show ?thesis by simp
      qed
      show "k \<le> Suc j"
      proof (cases k)
        case 0 then show ?thesis by simp
      next
        case (Suc k') with P have "k' \<le> j" by simp
        with Suc show ?thesis by simp
      qed
    qed
    have "\<forall>m < k. a ! (Suc i - k + m) = b ! (Suc j - k + m)"
    proof (intro allI impI)
      fix m assume m: "m < k"
      then have "k - 1 - m < k" by simp
      with P have e: "a ! (Suc i - 1 - (k - 1 - m)) = b ! (j - (k - 1 - m))" by blast
      have e1: "Suc i - 1 - (k - 1 - m) = Suc i - k + m" using m ki by arith
      have e2: "j - (k - 1 - m) = Suc j - k + m" using m kj by arith
      from e show "a ! (Suc i - k + m) = b ! (Suc j - k + m)" by (simp only: e1 e2)
    qed
    with True ki kj assms(2) j show ?thesis
      by (simp add: block_ok_def)
  qed
  have "block_ok a b (scan_row i (Suc j) ks ?best')"
    by (rule Cons.IH [of "pre @ [k]"]) (use Cons.prems ok in auto)
  with b show ?case by simp
qed

lemma flm_rows_block_ok:
  assumes "a = pre @ xs" and "length pre = i" and "prefix_row a b i j2len" and "block_ok a b best"
  shows "block_ok a b (flm_rows i xs b j2len best)"
  using assms
proof (induction xs arbitrary: pre i j2len best)
  case Nil
  then show ?case by simp
next
  case (Cons x xs)
  have i: "i < length a" and x: "a ! i = x" using Cons.prems(1,2) by auto
  let ?row = "next_row x b j2len"
  have row: "prefix_row a b (Suc i) ?row"
    using prefix_row_next [OF Cons.prems(3) i] x by simp
  have ok: "block_ok a b (scan_row i 0 ?row best)"
    by (rule scan_row_block_ok [OF row i, of "[]"]) (use Cons.prems(4) in auto)
  have "block_ok a b (flm_rows (Suc i) xs b ?row (scan_row i 0 ?row best))"
    by (rule Cons.IH [of "pre @ [x]"]) (use Cons.prems row ok in auto)
  then show ?case by (simp add: Let_def)
qed

lemma find_longest_match_block:
  assumes "find_longest_match a b = (i, j, k)"
  shows "i + k \<le> length a \<and> j + k \<le> length b \<and> take k (drop i a) = take k (drop j b)"
proof -
  have "block_ok a b (find_longest_match a b)"
    unfolding find_longest_match_def
    by (rule flm_rows_block_ok [of a "[]"]) (auto simp: prefix_row_def block_ok_def)
  with assms have b: "i + k \<le> length a" "j + k \<le> length b" "\<forall>m < k. a ! (i + m) = b ! (j + m)"
    by (auto simp: block_ok_def)
  have "take k (drop i a) = take k (drop j b)"
    by (rule nth_equalityI) (use b in auto)
  with b show ?thesis by simp
qed

lemma matching_size_unfold:
  assumes "find_longest_match a b = (i, j, k)"
  shows "matching_size a b =
     (if k = 0 then 0
      else k + (if 0 < i \<and> 0 < j then matching_size (take i a) (take j b) else 0)
             + (if i + k < length a \<and> j + k < length b
                then matching_size (drop (i + k) a) (drop (j + k) b) else 0))"
  by (subst matching_size.simps) (simp add: assms)

lemma matching_size_le: "matching_size a b \<le> length a \<and> matching_size a b \<le> length b"
proof (induction a b rule: matching_size.induct)
  case (1 a b)
  obtain i j k where f: "find_longest_match a b = (i, j, k)" by (metis prod_cases3)
  note bnd = find_longest_match_bound [OF f]
  show ?case
  proof (cases "k = 0")
    case True
    with matching_size_unfold [OF f] show ?thesis by simp
  next
    case False
    let ?L = "if 0 < i \<and> 0 < j then matching_size (take i a) (take j b) else 0"
    let ?R = "if i + k < length a \<and> j + k < length b
              then matching_size (drop (i + k) a) (drop (j + k) b) else 0"
    have L: "?L \<le> i \<and> ?L \<le> j"
    proof (cases "0 < i \<and> 0 < j")
      case True
      from "1.IH"(1) [OF f [symmetric] refl False True] True show ?thesis by simp
    next
      case False then show ?thesis by auto
    qed
    have R: "?R \<le> length a - (i + k) \<and> ?R \<le> length b - (j + k)"
    proof (cases "i + k < length a \<and> j + k < length b")
      case True
      from "1.IH"(2) [OF f [symmetric] refl False True] True show ?thesis by simp
    next
      case False then show ?thesis by auto
    qed
    have "matching_size a b = k + ?L + ?R"
      using matching_size_unfold [OF f] False by simp
    with L R bnd show ?thesis by arith
  qed
qed

lemma matching_size_full:
  "matching_size a b = length a \<Longrightarrow> length a = length b \<Longrightarrow> a = b"
proof (induction a b rule: matching_size.induct)
  case (1 a b)
  obtain i j k where f: "find_longest_match a b = (i, j, k)" by (metis prod_cases3)
  note blk = find_longest_match_block [OF f]
  show ?case
  proof (cases "k = 0")
    case True
    with matching_size_unfold [OF f] "1.prems" show ?thesis by simp
  next
    case False
    let ?n = "length a"
    let ?L = "if 0 < i \<and> 0 < j then matching_size (take i a) (take j b) else 0"
    let ?R = "if i + k < length a \<and> j + k < length b
              then matching_size (drop (i + k) a) (drop (j + k) b) else 0"
    have L: "?L \<le> i \<and> ?L \<le> j"
      using matching_size_le [of "take i a" "take j b"] by auto
    have R: "?R \<le> ?n - (i + k) \<and> ?R \<le> ?n - (j + k)"
      using matching_size_le [of "drop (i + k) a" "drop (j + k) b"] "1.prems"(2) by auto
    have M: "k + ?L + ?R = ?n"
      using matching_size_unfold [OF f] False "1.prems"(1) by simp
    from M L R blk "1.prems"(2) have ij: "i = j" by arith
    from M L R blk "1.prems"(2) ij have Lf: "?L = i" and Rf: "?R = ?n - (i + k)" by arith+
    have left: "take i a = take i b"
    proof (cases "0 < i")
      case True
      with Lf ij have "matching_size (take i a) (take j b) = length (take i a)"
        using blk by simp
      moreover have "length (take i a) = length (take j b)"
        using blk ij "1.prems"(2) by simp
      ultimately have "take i a = take j b"
        using "1.IH"(1) [OF f [symmetric] refl False] True ij by simp
      with ij show ?thesis by simp
    next
      case False then show ?thesis by simp
    qed
    have right: "drop (i + k) a = drop (i + k) b"
    proof (cases "i + k < ?n")
      case True
      with Rf ij "1.prems"(2)
      have "matching_size (drop (i + k) a) (drop (j + k) b) = length (drop (i + k) a)"
        by simp
      moreover have "length (drop (i + k) a) = length (drop (j + k) b)"
        using ij "1.prems"(2) by simp
      ultimately have "drop (i + k) a = drop (j + k) b"
        using "1.IH"(2) [OF f [symmetric] refl False] True ij "1.prems"(2) by simp
      with ij show ?thesis by simp
    next
      case False
      with "1.prems"(2) show ?thesis by simp
    qed
    have mid: "take k (drop i a) = take k (drop i b)" using blk ij by simp
    have "a = take i a @ take k (drop i a) @ drop (i + k) a"
      by (metis add.commute append_take_drop_id drop_drop)
    also have "\<dots> = take i b @ take k (drop i b) @ drop (i + k) b"
      by (simp only: left mid right)
    also have "\<dots> = b"
      by (metis add.commute append_take_drop_id drop_drop)
    finally show ?thesis .
  qed
qed

lemma prefix_row_bound:
  assumes "prefix_row a b i row" and "j < length b"
  shows "row ! j \<le> i \<and> row ! j \<le> Suc j"
proof (cases "row ! j")
  case 0
  then show ?thesis by simp
next
  case (Suc m)
  then have "m < row ! j" by simp
  with assms have "m < i \<and> m \<le> j" by (auto simp: prefix_row_def)
  with Suc show ?thesis by simp
qed

lemma scan_row_unchanged:
  "\<forall>k \<in> set ks. k \<le> bs \<Longrightarrow> scan_row i j ks (bi, bj, bs) = (bi, bj, bs)"
  by (induction ks arbitrary: j) auto

lemma scan_row_append:
  "scan_row i j (ks1 @ ks2) best = scan_row i (j + length ks1) ks2 (scan_row i j ks1 best)"
proof (induction ks1 arbitrary: j best)
  case Nil
  then show ?case by simp
next
  case (Cons k ks1)
  obtain bi bj bs where "best = (bi, bj, bs)" by (metis prod_cases3)
  with Cons show ?case by simp
qed

lemma scan_row_diag:
  assumes "prefix_row a a (Suc i) row" and "i < length a" and "row ! i = Suc i"
  shows "scan_row i 0 row (0, 0, i) = (0, 0, Suc i)"
proof -
  from assms(1) have len: "length row = length a" by (simp add: prefix_row_def)
  with assms(2) have split: "row = take i row @ (row ! i) # drop (Suc i) row"
    by (simp add: id_take_nth_drop)
  have pre: "\<forall>k \<in> set (take i row). k \<le> i"
  proof
    fix k assume "k \<in> set (take i row)"
    then obtain j where j: "j < i" "k = row ! j"
      using len assms(2) by (auto simp: in_set_conv_nth)
    with prefix_row_bound [OF assms(1), of j] assms(2) show "k \<le> i" by simp
  qed
  have post: "\<forall>k \<in> set (drop (Suc i) row). k \<le> Suc i"
  proof
    fix k assume "k \<in> set (drop (Suc i) row)"
    then obtain j where j: "j < length row" "k = row ! j"
      by (metis in_set_conv_nth in_set_dropD)
    with prefix_row_bound [OF assms(1), of j] len show "k \<le> Suc i" by simp
  qed
  have "scan_row i 0 row (0, 0, i)
      = scan_row i (0 + length (take i row)) ((row ! i) # drop (Suc i) row)
          (scan_row i 0 (take i row) (0, 0, i))"
    by (subst split) (rule scan_row_append)
  also have "\<dots> = scan_row i i ((row ! i) # drop (Suc i) row) (0, 0, i)"
    using scan_row_unchanged [OF pre] len assms(2) by simp
  also have "\<dots> = scan_row i (Suc i) (drop (Suc i) row) (0, 0, Suc i)"
    using assms(3) by simp
  also have "\<dots> = (0, 0, Suc i)"
    by (rule scan_row_unchanged [OF post])
  finally show ?thesis .
qed

lemma flm_rows_diag:
  assumes "a = pre @ xs" and "length pre = i" and "prefix_row a a i row"
    and "0 < i \<longrightarrow> row ! (i - 1) = i"
  shows "flm_rows i xs a row (0, 0, i) = (0, 0, length a)"
  using assms
proof (induction xs arbitrary: pre i row)
  case Nil
  then show ?case by simp
next
  case (Cons x xs)
  have i: "i < length a" and x: "a ! i = x" using Cons.prems(1,2) by auto
  let ?row = "next_row x a row"
  have row: "prefix_row a a (Suc i) ?row"
    using prefix_row_next [OF Cons.prems(3) i] x by simp
  from Cons.prems(3) have len: "length row = length a" by (simp add: prefix_row_def)
  have d: "?row ! i = Suc i"
    using next_row_nth [OF len i, of x] x Cons.prems(4) by (cases i) auto
  have s: "scan_row i 0 ?row (0, 0, i) = (0, 0, Suc i)"
    by (rule scan_row_diag [OF row i d])
  have "flm_rows (Suc i) xs a ?row (0, 0, Suc i) = (0, 0, length a)"
    by (rule Cons.IH [of "pre @ [x]"]) (use Cons.prems row d in auto)
  with s show ?case by (simp add: Let_def)
qed

lemma find_longest_match_same: "find_longest_match a a = (0, 0, length a)"
  unfolding find_longest_match_def
  by (rule flm_rows_diag [of a "[]"]) (auto simp: prefix_row_def)

lemma matching_size_same: "matching_size a a = length a"
  using matching_size_unfold [OF find_longest_match_same [of a]] by simp

lemma matching_size_eq_iff:
  "2 * matching_size a b = length a + length b \<longleftrightarrow> a = b"
proof
  assume e: "2 * matching_size a b = length a + length b"
  with matching_size_le [of a b] have "matching_size a b = length a" "length a = length b"
    by arith+
  then show "a = b" by (rule matching_size_full)
next
  assume "a = b"
  then show "2 * matching_size a b = length a + length b"
    by (simp add: matching_size_same)
qed

lemma ratio_unfold:
  assumes "m = matching_size (lower a) (lower b)" and "t = length (lower a) + length (lower b)"
  shows "ratio a b = (if t = 0 then 1 else of_nat (2 * m) / of_nat t)"
  unfolding assms by (simp only: ratio_def Let_def)

lemma ratio_le_one: "ratio a b \<le> 1"
proof -
  define m where "m = matching_size (lower a) (lower b)"
  define t where "t = length (lower a) + length (lower b)"
  have le: "2 * m \<le> t"
    unfolding m_def t_def using matching_size_le [of "lower a" "lower b"] by arith
  show ?thesis
  proof (cases "t = 0")
    case True
    then show ?thesis by (simp only: ratio_unfold [OF m_def t_def]) simp
  next
    case False
    then have pos: "(0::rat) < of_nat t" by simp
    from le have "(of_nat (2 * m) :: rat) \<le> of_nat t" by (simp only: of_nat_le_iff)
    then have "(of_nat (2 * m) :: rat) / of_nat t \<le> 1"
      using pos by (simp only: pos_divide_le_eq mult_1)
    with False show ?thesis by (simp only: ratio_unfold [OF m_def t_def] if_False)
  qed
qed

lemma ratio_eq_one_iff: "ratio a b = 1 \<longleftrightarrow> lower a = lower b"
proof -
  define m where "m = matching_size (lower a) (lower b)"
  define t where "t = length (lower a) + length (lower b)"
  have iff: "2 * m = t \<longleftrightarrow> lower a = lower b"
    unfolding m_def t_def by (rule matching_size_eq_iff)
  show ?thesis
  proof (cases "t = 0")
    case True
    then have "lower a = lower b" unfolding t_def by simp
    with True show ?thesis by (simp only: ratio_unfold [OF m_def t_def]) simp
  next
    case False
    then have nz: "(of_nat t :: rat) \<noteq> 0" by simp
    have "ratio a b = 1 \<longleftrightarrow> (of_nat (2 * m) :: rat) / of_nat t = 1"
      using False by (simp only: ratio_unfold [OF m_def t_def] if_False)
    also have "\<dots> \<longleftrightarrow> (of_nat (2 * m) :: rat) = of_nat t"
      using nz by (simp only: divide_eq_1_iff) simp
    also have "\<dots> \<longleftrightarrow> 2 * m = t" by (simp only: of_nat_eq_iff)
    finally show ?thesis using iff by simp
  qed
qed

lemma matching_size_Nil: "matching_size a [] = 0"
proof -
  obtain i j k where f: "find_longest_match a [] = (i, j, k)" by (metis prod_cases3)
  from find_longest_match_bound [OF f] have "k = 0" by simp
  with f show ?thesis by (subst matching_size.simps) simp
qed

lemma ratio_Nil: "candidate \<noteq> [] \<Longrightarrow> ratio candidate [] = 0"
  by (simp add: ratio_def Let_def lower_def matching_size_Nil)

lemma fuzzy_loop_max:
  assumes "fuzzy_loop candidate options (best, r0) = (best', r')"
  shows "r0 \<le> r' \<and> (\<forall>v \<in> set options. ratio candidate v \<le> r')
       \<and> ((best' = best \<and> r' = r0)
          \<or> (\<exists>b \<in> set options. best' = Some b \<and> ratio candidate b = r' \<and> r0 < r'))"
  using assms
proof (induction options arbitrary: best r0)
  case Nil
  then show ?case by simp
next
  case (Cons opt options)
  let ?r = "ratio candidate opt"
  show ?case
  proof (cases "?r > r0")
    case True
    with Cons.prems have "fuzzy_loop candidate options (Some opt, ?r) = (best', r')"
      by (simp add: Let_def)
    from Cons.IH [OF this] True show ?thesis by auto
  next
    case False
    with Cons.prems have "fuzzy_loop candidate options (best, r0) = (best', r')"
      by (simp add: Let_def)
    from Cons.IH [OF this] False show ?thesis by auto
  qed
qed

lemma fuzzy_pick_step:
  assumes "candidate \<noteq> []" and "0 < cutoff"
  shows "similarity_step candidate vocab cutoff passthrough
           (py_or (fuzzy_pick candidate vocab cutoff) (Some passthrough))"
proof -
  obtain best' r' where l: "fuzzy_loop candidate vocab (None, 0) = (best', r')"
    by (metis surj_pair)
  note m = fuzzy_loop_max [OF l]
  show ?thesis
  proof (cases "\<exists>v \<in> set vocab. cutoff \<le> ratio candidate v")
    case True
    then obtain v where v: "v \<in> set vocab" "cutoff \<le> ratio candidate v" by blast
    with m have r: "cutoff \<le> r'" by fastforce
    with assms(2) m obtain b where b: "b \<in> set vocab" "best' = Some b" "ratio candidate b = r'"
      by auto
    have "b \<noteq> []"
    proof
      assume "b = []"
      with b(3) ratio_Nil [OF assms(1)] r assms(2) show False by simp
    qed
    with b r l v(1) have "fuzzy_pick candidate vocab cutoff = Some b \<and> truthy (Some b)"
      using assms(1) by (auto simp: fuzzy_pick_def)
    then have "py_or (fuzzy_pick candidate vocab cutoff) (Some passthrough) = Some b"
      by (simp add: py_or_def)
    with True b r m show ?thesis
      by (auto simp: similarity_step_def)
  next
    case False
    from m have "r' = 0 \<or> (\<exists>b \<in> set vocab. ratio candidate b = r')" by auto
    with False assms(2) have "\<not> cutoff \<le> r'" by auto
    with l have "fuzzy_pick candidate vocab cutoff = None"
      by (simp add: fuzzy_pick_def)
    with False show ?thesis
      by (simp add: similarity_step_def py_or_def)
  qed
qed

lemma is_space_lower_char: "is_space (lower_char c) = is_space c"
  by (auto simp: is_space_def lower_char_def Let_def)

lemma lower_dropWhile: "lower (dropWhile is_space s) = dropWhile is_space (lower s)"
  by (induction s) (auto simp: lower_def is_space_lower_char)

lemma lower_rev: "lower (rev s) = rev (lower s)"
  by (simp add: lower_def rev_map)

lemma lower_strip: "lower (strip s) = strip (lower s)"
  by (simp add: strip_def lower_rev lower_dropWhile)

lemma lower_Nil_iff: "lower s = [] \<longleftrightarrow> s = []"
  by (simp add: lower_def)

section \<open>Similarity cutoffs\<close>

text \<open>
  C4. For every non-empty input that reaches the similarity step of its field (no alias
  and no exact vocabulary entry answered before; for campus, a single part), normalization
  returns the best-scoring vocabulary entry exactly when that score reaches the cutoff of the
  field, 0.78 for university, 0.83 for department, 0.90 for program and 0.80 for campus, and
  returns the trimmed input itself, never an absent value, when no entry reaches the cutoff.
\<close>

theorem similarity_cutoffs:
  "txt \<noteq> [] \<longrightarrow>
     (find (\<lambda>u. lower u = lower (strip txt)) (UNIS cat) = None \<longrightarrow>
        similarity_step txt (UNIS cat) (78 / 100) (strip txt) (norm_uni cat txt))
   \<and> (map_of dept_aliases (lower (strip txt)) = None
        \<and> find (\<lambda>d. lower d = lower (strip txt)) (DEPTS cat) = None \<longrightarrow>
        similarity_step txt (DEPTS cat) (83 / 100) (strip txt) (norm_dept cat txt))
   \<and> (map_of prog_aliases (squash (lower (strip txt))) = None \<longrightarrow>
        similarity_step txt (PROGS cat) (90 / 100) (strip txt) (norm_prog cat txt))
   \<and> (map_of campus_aliases (lower txt) = None \<longrightarrow>
        similarity_step txt (CAMPS cat) (80 / 100) txt (Some (norm_campus_part cat txt)))
   \<and> (split_campus [] txt = [txt] \<and> strip txt \<noteq> []
        \<and> map_of campus_aliases (lower (strip txt)) = None \<longrightarrow>
        similarity_step (strip txt) (CAMPS cat) (80 / 100) (strip txt) (Some (norm_campus cat txt)))"
proof (intro impI conjI)
  assume t: "txt \<noteq> []"
  {
    assume "find (\<lambda>u. lower u = lower (strip txt)) (UNIS cat) = None"
    with t fuzzy_pick_step [OF t, of "78 / 100" "UNIS cat" "strip txt"]
    show "similarity_step txt (UNIS cat) (78 / 100) (strip txt) (norm_uni cat txt)"
      by (simp add: norm_uni_def)
  next
    assume "map_of dept_aliases (lower (strip txt)) = None
        \<and> find (\<lambda>d. lower d = lower (strip txt)) (DEPTS cat) = None"
    with t fuzzy_pick_step [OF t, of "83 / 100" "DEPTS cat" "strip txt"]
    show "similarity_step txt (DEPTS cat) (83 / 100) (strip txt) (norm_dept cat txt)"
      by (simp add: norm_dept_def)
  next
    assume "map_of prog_aliases (squash (lower (strip txt))) = None"
    with t fuzzy_pick_step [OF t, of "90 / 100" "PROGS cat" "strip txt"]
    show "similarity_step txt (PROGS cat) (90 / 100) (strip txt) (norm_prog cat txt)"
      by (simp add: norm_prog_def)
  next
    assume a: "map_of campus_aliases (lower txt) = None"
    have "similarity_step txt (CAMPS cat) (80 / 100) txt
            (py_or (fuzzy_pick txt (CAMPS cat) (80 / 100)) (Some txt))"
      by (rule fuzzy_pick_step [OF t]) simp
    moreover have "\<exists>r. py_or (fuzzy_pick txt (CAMPS cat) (80 / 100)) (Some txt) = Some r"
      by (cases "fuzzy_pick txt (CAMPS cat) (80 / 100)") (auto simp: py_or_def)
    ultimately
    show "similarity_step txt (CAMPS cat) (80 / 100) txt (Some (norm_campus_part cat txt))"
      using a by (auto simp: norm_campus_part_def)
  next
    assume a: "split_campus [] txt = [txt] \<and> strip txt \<noteq> []
        \<and> map_of campus_aliases (lower (strip txt)) = None"
    then have s: "strip txt \<noteq> []" by simp
    have "similarity_step (strip txt) (CAMPS cat) (80 / 100) (strip txt)
            (py_or (fuzzy_pick (strip txt) (CAMPS cat) (80 / 100)) (Some (strip txt)))"
      by (rule fuzzy_pick_step [OF s]) simp
    moreover have "\<exists>r. py_or (fuzzy_pick (strip txt) (CAMPS cat) (80 / 100)) (Some (strip txt)) = Some r"
      by (cases "fuzzy_pick (strip txt) (CAMPS cat) (80 / 100)") (auto simp: py_or_def)
    moreover have "norm_campus cat txt = norm_campus_part cat (strip txt)"
      using a t by (simp add: norm_campus_def)
    ultimately
    show "similarity_step (strip txt) (CAMPS cat) (80 / 100) (strip txt) (Some (norm_campus cat txt))"
      using a by (auto simp: norm_campus_part_def)
  }
qed

theorem similarity_cutoffs_witness:
  "''Faast'' \<noteq> []
   \<and> find (\<lambda>u. lower u = lower (strip ''Faast'')) (UNIS (boot [fast_cs 2023])) = None
   \<and> map_of dept_aliases (lower (strip ''Faast'')) = None
   \<and> find (\<lambda>d. lower d = lower (strip ''Faast'')) (DEPTS (boot [fast_cs 2023])) = None
   \<and> map_of prog_aliases (squash (lower (strip ''Faast''))) = None
   \<and> map_of campus_aliases (lower ''Faast'') = None
   \<and> split_campus [] ''Faast'' = [''Faast''] \<and> strip ''Faast'' \<noteq> []
   \<and> map_of campus_aliases (lower (strip ''Faast'')) = None
   \<and> similarity_step ''Faast'' (UNIS (boot [fast_cs 2023])) (78 / 100) (strip ''Faast'')
        (norm_uni (boot [fast_cs 2023]) ''Faast'')
   \<and> similarity_step ''Faast'' (DEPTS (boot [fast_cs 2023])) (83 / 100) (strip ''Faast'')
        (norm_dept (boot [fast_cs 2023]) ''Faast'')
   \<and> similarity_step ''Faast'' (PROGS (boot [fast_cs 2023])) (90 / 100) (strip ''Faast'')
        (norm_prog (boot [fast_cs 2023]) ''Faast'')
   \<and> similarity_step ''Faast'' (CAMPS (boot [fast_cs 2023])) (80 / 100) ''Faast''
        (Some (norm_campus_part (boot [fast_cs 2023]) ''Faast''))
   \<and> similarity_step (strip ''Faast'') (CAMPS (boot [fast_cs 2023])) (80 / 100) (strip ''Faast'')
        (Some (norm_campus (boot [fast_cs 2023]) ''Faast''))
   \<and> ratio ''Faast'' ''FAST'' = 8 / 9
   \<and> norm_uni (boot [fast_cs 2023]) ''Faast'' = Some ''FAST''
   \<and> norm_dept (boot [fast_cs 2023]) ''Faast'' = Some ''Faast''
   \<and> norm_prog (boot [fast_cs 2023]) ''Faast'' = Some ''Faast''
   \<and> norm_campus (boot [fast_cs 2023]) ''Faast'' = ''Faast''"
proof -
  have h: "''Faast'' \<noteq> []"
    "find (\<lambda>u. lower u = lower (strip ''Faast'')) (UNIS (boot [fast_cs 2023])) = None"
    "map_of dept_aliases (lower (strip ''Faast'')) = None"
    "find (\<lambda>d. lower d = lower (strip ''Faast'')) (DEPTS (boot [fast_cs 2023])) = None"
    "map_of prog_aliases (squash (lower (strip ''Faast''))) = None"
    "map_of campus_aliases (lower ''Faast'') = None"
    "split_campus [] ''Faast'' = [''Faast'']" "strip ''Faast'' \<noteq> []"
    "map_of campus_aliases (lower (strip ''Faast'')) = None"
    by code_simp+
  have v: "ratio ''Faast'' ''FAST'' = 8 / 9"
    "norm_uni (boot [fast_cs 2023]) ''Faast'' = Some ''FAST''"
    "norm_dept (boot [fast_cs 2023]) ''Faast'' = Some ''Faast''"
    "norm_prog (boot [fast_cs 2023]) ''Faast'' = Some ''Faast''"
    "norm_campus (boot [fast_cs 2023]) ''Faast'' = ''Faast''"
    by code_simp+
  from similarity_cutoffs [of "''Faast''" "boot [fast_cs 2023]"] h
  have "similarity_step ''Faast'' (UNIS (boot [fast_cs 2023])) (78 / 100) (strip ''Faast'')
        (norm_uni (boot [fast_cs 2023]) ''Faast'')
   \<and> similarity_step ''Faast'' (DEPTS (boot [fast_cs 2023])) (83 / 100) (strip ''Faast'')
        (norm_dept (boot [fast_cs 2023]) ''Faast'')
   \<and> similarity_step ''Faast'' (PROGS (boot [fast_cs 2023])) (90 / 100) (strip ''Faast'')
        (norm_prog (boot [fast_cs 2023]) ''Faast'')
   \<and> similarity_step ''Faast'' (CAMPS (boot [fast_cs 2023])) (80 / 100) ''Faast''
        (Some (norm_campus_part (boot [fast_cs 2023]) ''Faast''))
   \<and> similarity_step (strip ''Faast'') (CAMPS (boot [fast_cs 2023])) (80 / 100) (strip ''Faast'')
        (Some (norm_campus (boot [fast_cs 2023]) ''Faast''))"
    by blast
  with h v show ?thesis by blast
qed

section \<open>Vocabulary strings\<close>

lemma find_exact_hit:
  assumes "v \<in> set vocab"
  shows "exact_hit vocab v (find (\<lambda>u. lower u = lower v) vocab)"
proof -
  from assms obtain u where u: "find (\<lambda>u. lower u = lower v) vocab = Some u"
    by (cases "find (\<lambda>u. lower u = lower v) vocab") (auto simp: find_None_iff)
  then have "u \<in> set vocab" "lower u = lower v"
    by (auto simp: find_Some_iff)
  with u show ?thesis by (auto simp: exact_hit_def)
qed

lemma fuzzy_loop_no_better:
  "\<forall>v \<in> set options. ratio candidate v \<le> r0 \<Longrightarrow>
     fuzzy_loop candidate options (best, r0) = (best, r0)"
  by (induction options) (auto simp: Let_def)

lemma fuzzy_loop_first_one:
  assumes "\<exists>v \<in> set options. ratio candidate v = 1" and "r0 < 1"
  shows "fuzzy_loop candidate options (best, r0)
           = (find (\<lambda>v. ratio candidate v = 1) options, 1)"
  using assms
proof (induction options arbitrary: best r0)
  case Nil
  then show ?case by simp
next
  case (Cons opt options)
  show ?case
  proof (cases "ratio candidate opt = 1")
    case True
    have "fuzzy_loop candidate options (Some opt, 1) = (Some opt, 1)"
      by (rule fuzzy_loop_no_better) (simp add: ratio_le_one)
    with True Cons.prems(2) show ?thesis by (simp add: Let_def)
  next
    case False
    with ratio_le_one [of candidate opt] have lt: "ratio candidate opt < 1" by simp
    from False Cons.prems(1) have ex: "\<exists>v \<in> set options. ratio candidate v = 1" by auto
    show ?thesis
    proof (cases "ratio candidate opt > r0")
      case True
      with Cons.IH [OF ex lt, of "Some opt"] False show ?thesis by (simp add: Let_def)
    next
      case False
      with Cons.IH [OF ex Cons.prems(2), of best] \<open>ratio candidate opt \<noteq> 1\<close> show ?thesis
        by (simp add: Let_def)
    qed
  qed
qed

lemma fuzzy_pick_exact:
  assumes "v \<in> set vocab" and "lower s = lower v" and "s \<noteq> []" and "cutoff \<le> 1"
  shows "fuzzy_pick s vocab cutoff = find (\<lambda>u. lower u = lower v) vocab"
proof -
  have p: "(\<lambda>u. ratio s u = 1) = (\<lambda>u. lower u = lower v)"
    using assms(2) by (auto simp: ratio_eq_one_iff)
  have "\<exists>u \<in> set vocab. ratio s u = 1"
    using assms(1,2) by (auto simp: ratio_eq_one_iff)
  then have "fuzzy_loop s vocab (None, 0) = (find (\<lambda>u. ratio s u = 1) vocab, 1)"
    by (rule fuzzy_loop_first_one) simp
  with assms(1,3,4) p show ?thesis
    by (auto simp: fuzzy_pick_def)
qed

lemma vocabulary_entry:
  assumes "v \<in> set (UNIS (boot rows)) \<or> v \<in> set (DEPTS (boot rows))
         \<or> v \<in> set (PROGS (boot rows)) \<or> v \<in> set (CAMPS (boot rows))"
  shows "v \<noteq> [] \<and> strip v = v"
  using assms vocabulary_boot [of v University rows db_University]
    vocabulary_boot [of v Department rows db_Department]
    vocabulary_boot [of v Program rows db_Program]
    vocabulary_boot [of v Campus rows db_Campus]
  by (auto simp: boot_def Let_def grab_row_def)

lemma case_variant:
  assumes "lower s = lower v" and "v \<noteq> []" and "strip v = v"
  shows "s \<noteq> [] \<and> lower (strip s) = lower v \<and> strip s \<noteq> []"
proof -
  have "lower (strip s) = lower v"
    using assms(1,3) lower_strip [of s] lower_strip [of v] by simp
  moreover from assms(1,2) have "s \<noteq> []" by (auto simp: lower_def)
  moreover from assms(2) have "lower v \<noteq> []" by (simp add: lower_def)
  ultimately show ?thesis by (auto simp: lower_def)
qed

text \<open>
  C5 (as amended). Let \<open>v\<close> be a string of a field's vocabulary and \<open>s\<close> the same string in
  any letter case.  Alias lookup comes first for department, program and campus: when the
  lower-cased string is an alias key, the alias value is returned.  Otherwise, and always
  for university, the result is the first vocabulary entry equal to \<open>v\<close> up to letter case,
  which is \<open>v\<close> itself when no other entry differs from it in case only.  University and
  department reach it by an exact case-insensitive match before any fuzzy matching; program
  and campus have no exact step and reach it through the fuzzy match, whose score is 1
  exactly on the entries equal up to case; for campus the string must not contain a
  separator.
\<close>

theorem vocabulary_strings_normalize:
  "lower s = lower v \<longrightarrow>
     (v \<in> set (UNIS (boot rows)) \<longrightarrow> exact_hit (UNIS (boot rows)) v (norm_uni (boot rows) s))
   \<and> (v \<in> set (DEPTS (boot rows)) \<longrightarrow>
        (case map_of dept_aliases (lower v) of
           Some a \<Rightarrow> norm_dept (boot rows) s = Some a
         | None \<Rightarrow> exact_hit (DEPTS (boot rows)) v (norm_dept (boot rows) s)))
   \<and> (v \<in> set (PROGS (boot rows)) \<longrightarrow>
        (case map_of prog_aliases (squash (lower v)) of
           Some a \<Rightarrow> norm_prog (boot rows) s = Some a
         | None \<Rightarrow> exact_hit (PROGS (boot rows)) v (norm_prog (boot rows) s)))
   \<and> (v \<in> set (CAMPS (boot rows)) \<and> split_campus [] s = [s] \<longrightarrow>
        (case map_of campus_aliases (lower v) of
           Some a \<Rightarrow> norm_campus (boot rows) s = a
         | None \<Rightarrow> exact_hit (CAMPS (boot rows)) v (Some (norm_campus (boot rows) s))))"
proof (intro impI conjI)
  assume e: "lower s = lower v"
  {
    assume v: "v \<in> set (UNIS (boot rows))"
    from vocabulary_entry [of v rows] v have "v \<noteq> [] \<and> strip v = v" by blast
    with case_variant [OF e] have c: "s \<noteq> []" "lower (strip s) = lower v" by auto
    from find_exact_hit [OF v] obtain u
      where u: "find (\<lambda>u. lower u = lower v) (UNIS (boot rows)) = Some u"
      by (auto simp: exact_hit_def)
    with c have "norm_uni (boot rows) s = find (\<lambda>u. lower u = lower v) (UNIS (boot rows))"
      by (simp add: norm_uni_def)
    with find_exact_hit [OF v]
    show "exact_hit (UNIS (boot rows)) v (norm_uni (boot rows) s)" by simp
  next
    assume v: "v \<in> set (DEPTS (boot rows))"
    from vocabulary_entry [of v rows] v have "v \<noteq> [] \<and> strip v = v" by blast
    with case_variant [OF e] have c: "s \<noteq> []" "lower (strip s) = lower v" by auto
    from find_exact_hit [OF v] obtain u
      where u: "find (\<lambda>u. lower u = lower v) (DEPTS (boot rows)) = Some u"
      by (auto simp: exact_hit_def)
    show "case map_of dept_aliases (lower v) of
           Some a \<Rightarrow> norm_dept (boot rows) s = Some a
         | None \<Rightarrow> exact_hit (DEPTS (boot rows)) v (norm_dept (boot rows) s)"
    proof (cases "map_of dept_aliases (lower v)")
      case None
      with c u have "norm_dept (boot rows) s = find (\<lambda>u. lower u = lower v) (DEPTS (boot rows))"
        by (simp add: norm_dept_def)
      with find_exact_hit [OF v] None show ?thesis by simp
    next
      case (Some a)
      with c show ?thesis by (simp add: norm_dept_def)
    qed
  next
    assume v: "v \<in> set (PROGS (boot rows))"
    from vocabulary_entry [of v rows] v have "v \<noteq> [] \<and> strip v = v" by blast
    with case_variant [OF e] have c: "s \<noteq> []" "lower (strip s) = lower v" by auto
    from find_exact_hit [OF v] obtain u
      where u: "find (\<lambda>u. lower u = lower v) (PROGS (boot rows)) = Some u"
        "u \<in> set (PROGS (boot rows))"
      by (auto simp: exact_hit_def)
    from vocabulary_entry [of u rows] u(2) have un: "u \<noteq> []" by blast
    show "case map_of prog_aliases (squash (lower v)) of
           Some a \<Rightarrow> norm_prog (boot rows) s = Some a
         | None \<Rightarrow> exact_hit (PROGS (boot rows)) v (norm_prog (boot rows) s)"
    proof (cases "map_of prog_aliases (squash (lower v))")
      case None
      have "fuzzy_pick s (PROGS (boot rows)) (90 / 100) = Some u"
        using fuzzy_pick_exact [OF v e c(1), of "90 / 100"] u(1) by simp
      with None c un have "norm_prog (boot rows) s = Some u"
        by (simp add: norm_prog_def py_or_def)
      with find_exact_hit [OF v] u(1) None show ?thesis by simp
    next
      case (Some a)
      with c show ?thesis by (simp add: norm_prog_def)
    qed
  next
    assume vs: "v \<in> set (CAMPS (boot rows)) \<and> split_campus [] s = [s]"
    then have v: "v \<in> set (CAMPS (boot rows))" and sp: "split_campus [] s = [s]" by auto
    from vocabulary_entry [of v rows] v have "v \<noteq> [] \<and> strip v = v" by blast
    with case_variant [OF e] have c: "s \<noteq> []" "lower (strip s) = lower v" "strip s \<noteq> []" by auto
    from find_exact_hit [OF v] obtain u
      where u: "find (\<lambda>u. lower u = lower v) (CAMPS (boot rows)) = Some u"
        "u \<in> set (CAMPS (boot rows))"
      by (auto simp: exact_hit_def)
    from vocabulary_entry [of u rows] u(2) have un: "u \<noteq> []" by blast
    have n: "norm_campus (boot rows) s = norm_campus_part (boot rows) (strip s)"
      using sp c by (simp add: norm_campus_def)
    show "case map_of campus_aliases (lower v) of
           Some a \<Rightarrow> norm_campus (boot rows) s = a
         | None \<Rightarrow> exact_hit (CAMPS (boot rows)) v (Some (norm_campus (boot rows) s))"
    proof (cases "map_of campus_aliases (lower v)")
      case None
      have "fuzzy_pick (strip s) (CAMPS (boot rows)) (80 / 100) = Some u"
        using fuzzy_pick_exact [OF v c(2) c(3), of "80 / 100"] u(1) by simp
      with None c un n have "norm_campus (boot rows) s = u"
        by (simp add: norm_campus_part_def py_or_def)
      with find_exact_hit [OF v] u(1) None show ?thesis by simp
    next
      case (Some a)
      with c n show ?thesis by (simp add: norm_campus_part_def)
    qed
  }
qed

theorem vocabulary_strings_normalize_witness:
  "lower ''qau'' = lower ''QAU'' \<and> ''QAU'' \<in> set (UNIS (boot chem_cat_rows))
   \<and> exact_hit (UNIS (boot chem_cat_rows)) ''QAU'' (norm_uni (boot chem_cat_rows) ''qau'')
   \<and> norm_uni (boot chem_cat_rows) ''qau'' = Some ''QAU''
   \<and> lower ''CHEMISTRY'' = lower ''Chemistry'' \<and> ''Chemistry'' \<in> set (DEPTS (boot chem_cat_rows))
   \<and> map_of dept_aliases (lower ''Chemistry'') = None
   \<and> exact_hit (DEPTS (boot chem_cat_rows)) ''Chemistry'' (norm_dept (boot chem_cat_rows) ''CHEMISTRY'')
   \<and> norm_dept (boot chem_cat_rows) ''CHEMISTRY'' = Some ''Chemistry''
   \<and> lower ''bba'' = lower ''BBA'' \<and> ''BBA'' \<in> set (PROGS (boot chem_cat_rows))
   \<and> map_of prog_aliases (squash (lower ''BBA'')) = None
   \<and> exact_hit (PROGS (boot chem_cat_rows)) ''BBA'' (norm_prog (boot chem_cat_rows) ''bba'')
   \<and> norm_prog (boot chem_cat_rows) ''bba'' = Some ''BBA''
   \<and> lower ''GILGIT'' = lower ''Gilgit'' \<and> ''Gilgit'' \<in> set (CAMPS (boot chem_cat_rows))
   \<and> split_campus [] ''GILGIT'' = [''GILGIT'']
   \<and> map_of campus_aliases (lower ''Gilgit'') = None
   \<and> exact_hit (CAMPS (boot chem_cat_rows)) ''Gilgit'' (Some (norm_campus (boot chem_cat_rows) ''GILGIT''))
   \<and> norm_campus (boot chem_cat_rows) ''GILGIT'' = ''Gilgit''"
proof -
  have u: "lower ''qau'' = lower ''QAU''" "''QAU'' \<in> set (UNIS (boot chem_cat_rows))"
    "norm_uni (boot chem_cat_rows) ''qau'' = Some ''QAU''"
    by code_simp+
  have d: "lower ''CHEMISTRY'' = lower ''Chemistry''"
    "''Chemistry'' \<in> set (DEPTS (boot chem_cat_rows))"
    "map_of dept_aliases (lower ''Chemistry'') = None"
    "norm_dept (boot chem_cat_rows) ''CHEMISTRY'' = Some ''Chemistry''"
    by code_simp+
  have p: "lower ''bba'' = lower ''BBA''" "''BBA'' \<in> set (PROGS (boot chem_cat_rows))"
    "map_of prog_aliases (squash (lower ''BBA'')) = None"
    "norm_prog (boot chem_cat_rows) ''bba'' = Some ''BBA''"
    by code_simp+
  have c: "lower ''GILGIT'' = lower ''Gilgit''" "''Gilgit'' \<in> set (CAMPS (boot chem_cat_rows))"
    "split_campus [] ''GILGIT'' = [''GILGIT'']"
    "map_of campus_aliases (lower ''Gilgit'') = None"
    "norm_campus (boot chem_cat_rows) ''GILGIT'' = ''Gilgit''"
    by code_simp+
  have 1: "exact_hit (UNIS (boot chem_cat_rows)) ''QAU'' (norm_uni (boot chem_cat_rows) ''qau'')"
    using vocabulary_strings_normalize [of "''qau''" "''QAU''" chem_cat_rows] u(1,2) by blast
  have 2: "exact_hit (DEPTS (boot chem_cat_rows)) ''Chemistry''
             (norm_dept (boot chem_cat_rows) ''CHEMISTRY'')"
    using vocabulary_strings_normalize [of "''CHEMISTRY''" "''Chemistry''" chem_cat_rows] d(1,2,3)
    by simp
  have 3: "exact_hit (PROGS (boot chem_cat_rows)) ''BBA'' (norm_prog (boot chem_cat_rows) ''bba'')"
    using vocabulary_strings_normalize [of "''bba''" "''BBA''" chem_cat_rows] p(1,2,3)
    by simp
  have 4: "exact_hit (CAMPS (boot chem_cat_rows)) ''Gilgit''
             (Some (norm_campus (boot chem_cat_rows) ''GILGIT''))"
    using vocabulary_strings_normalize [of "''GILGIT''" "''Gilgit''" chem_cat_rows] c(1,2,3,4)
    by simp
  from u d p c 1 2 3 4 show ?thesis by blast
qed

text \<open>
  The claim as stated returns every vocabulary string unchanged.  A department vocabulary
  entry that is also an alias key is replaced by the alias value.
\<close>

theorem alias_shadows_vocabulary_counterexample:
  "''Electrical Engineering'' \<in> set (DEPTS ee_cat)
   \<and> norm_dept ee_cat ''Electrical Engineering'' = Some ''Electrical''"
  by code_simp

section \<open>Multi-campus normalization\<close>

text \<open>
  C8. The campus normalizer splits its argument at every occurrence of the letters ``and'',
  also inside a word: the pattern given to \<^verbatim>\<open>re.split\<close> has no word boundary, where the
  handler's own test for several campuses has one (\<^verbatim>\<open>\band\b\<close>) and the comment announces
  the separators comma and ``and''.  A campus name that contains these letters is therefore
  not normalized as one part.  With the campus Mandi Bahauddin in the vocabulary, the name
  itself is cut into ``M'' and ``i Bahauddin'', the second piece is matched back to the
  vocabulary entry, and the result names two campuses; joined to a second campus by the
  separator ``and'' it gives three.  The result of normalizing the misspelt name is the
  vocabulary entry, and a second pass changes it.  A turn that asks for this one campus is
  answered by the reply for several campuses.
\<close>

theorem split_inside_campus_name:
  "CAMPS mandi_cat = [''Mandi Bahauddin'']
   \<and> split_campus [] ''Mandi Bahauddin'' = [''M'', ''i Bahauddin'']
   \<and> norm_campus mandi_cat ''Mandi Bahauddin'' = ''M, Mandi Bahauddin''
   \<and> norm_campus mandi_cat ''Mandi Bahauddin and Lahore'' = ''M, Mandi Bahauddin, Lahore''
   \<and> norm_campus mandi_cat ''Mnadi Bahauddin'' = ''Mandi Bahauddin''
   \<and> norm_campus mandi_cat (norm_campus mandi_cat ''Mnadi Bahauddin'') = ''M, Mandi Bahauddin''
   \<and> norm_campus (boot [fast_cs 2023]) ''Mandi Bahauddin'' = ''M, i Bahauddin''
   \<and> \<not> is_multi_campus ''Mandi Bahauddin''
   \<and> map_sum (\<lambda>e. e) fst
        (chat mandi_cat 2026 None (turn ''BS Physics at UOG Mandi Bahauddin 2023'') Map.empty)
     = Inr (MultiCampusReply (Some ''UOG'') (Some ''Physics'') (Some ''BS'') ''M, Mandi Bahauddin''
              (Some 2023))"
  by code_simp

text \<open>
  Apart from the split, a second pass also changes a vocabulary entry that is an alias key
  of another campus, because the alias lookup comes before the vocabulary.
\<close>

lemma alias_key_changes_on_second_pass:
  "norm_campus isb_cat ''ISBD'' = ''ISB'' \<and> norm_campus isb_cat ''ISB'' = ''Islamabad''"
  by code_simp

end
